theory Spec2Isabelle
  imports Main "HOL-Library.Word" "HOL-Library.Sublist"
begin

unbundle bit_operations_syntax

section \<open>Basic types\<close>

text \<open>
  Go's \<open>uint8\<close>, \<open>uint32\<close> and \<open>uint64\<close> are words of that width. A QUIC stream
  handed over by the QUIC layer and an HTTP/3 connection handle
  (\<open>http3.StreamCreator\<close>) are opaque, non-nil handles compared by identity.
\<close>

type_synonym byte = "8 word"
type_synonym uint64 = "64 word"
type_synonym ErrorCode = "32 word"
type_synonym StreamErrorCode = "64 word"
type_synonym sessionID = "64 word"
type_synonym qstream = nat
type_synonym qconn = nat

section \<open>Errors, panics and results\<close>

text \<open>
  Go \<open>error\<close> values. \<open>QuicStreamError\<close> is \<open>*quic.StreamError\<close>, \<open>WTStreamError\<close> is
  this package's \<open>*StreamError\<close>, \<open>ConvertFailed code cerr\<close> is the value of
  \<open>fmt.Errorf("stream reset, but failed to convert stream error %d: %w", code, cerr)\<close>,
  \<open>WrapError\<close> is any other error whose \<open>Unwrap\<close> method returns the wrapped error,
  \<open>ContextErr\<close> is \<open>ctx.Err()\<close> of a cancelled context, and \<open>MappingError\<close> is the error
  \<open>httpCodeToWebtransportCode\<close> reports for a code it cannot decode.
\<close>

datatype ctx_kind = SessionCtx | CallerCtx

datatype goerror =
    QuicStreamError StreamErrorCode
  | WTStreamError ErrorCode
  | MappingError
  | ConvertFailed StreamErrorCode goerror
  | WrapError string goerror
  | ErrorString string
  | ContextErr ctx_kind
  | EOF

text \<open>Run-time panics, and the outcome of a call that may fail, panic or park.\<close>

datatype fault =
    NilPointerDereference
  | CloseOfClosedChannel
  | SliceBoundsOutOfRange
  | VarintOutOfRange

datatype 'a res = Ok 'a | Fail goerror | Panic fault | Blocked

section \<open>Error-code mapping\<close>

text \<open>
  Modelled from the spec: the functions \<open>webtransportCodeToHTTPCode\<close> and
  \<open>httpCodeToWebtransportCode\<close> and the constants \<open>firstErrorCode\<close> and
  \<open>lastErrorCode\<close> are used by the stream adapters but their file is missing. The spec
  gives \<open>wt_to_http(code) = FIRST + code + floor(code / 0x1e)\<close> with
  \<open>FIRST = 0x52e4a40fa8db\<close> on 32-bit codes, "and inverse, matching the WebTransport
  draft's greased HTTP/3 reset space", where gap codes and codes outside the range are
  rejected. \<open>lastErrorCode\<close> is the image of the largest 32-bit code; the gap codes
  are those of the form \<open>0x1f * N + 0x21\<close>.
\<close>

definition firstErrorCode :: StreamErrorCode where
  "firstErrorCode = 0x52e4a40fa8db"

definition lastErrorCode :: StreamErrorCode where
  "lastErrorCode = 0x52e5ac983162"

definition webtransportCodeToHTTPCode :: "ErrorCode \<Rightarrow> StreamErrorCode" where
  "webtransportCodeToHTTPCode n = firstErrorCode + ucast n + ucast (n div 0x1e)"

definition httpCodeToWebtransportCode :: "StreamErrorCode \<Rightarrow> goerror + ErrorCode" where
  "httpCodeToWebtransportCode h =
     (if h < firstErrorCode \<or> lastErrorCode < h then Inl MappingError
      else if (h - 0x21) mod 0x1f = 0 then Inl MappingError
      else let shifted = h - firstErrorCode
           in Inr (ucast (shifted - shifted div 0x1f)))"

section \<open>Conversion of stream errors\<close>

text \<open>
  \<open>errors.As(err, &streamErr)\<close> for a target of type \<open>*quic.StreamError\<close>: the first
  error of that type on the \<open>Unwrap\<close> chain of \<open>err\<close>, of which only the code is used.
\<close>

fun Unwrap :: "goerror \<Rightarrow> goerror option" where
  "Unwrap (ConvertFailed code cerr) = Some cerr"
| "Unwrap (WrapError msg e) = Some e"
| "Unwrap e = None"

fun errors_As_StreamError :: "goerror \<Rightarrow> StreamErrorCode option" where
  "errors_As_StreamError (QuicStreamError code) = Some code"
| "errors_As_StreamError (ConvertFailed code cerr) = errors_As_StreamError cerr"
| "errors_As_StreamError (WrapError msg e) = errors_As_StreamError e"
| "errors_As_StreamError e = None"

text \<open>
  The errors that \<open>errors.Is\<close> and \<open>errors.As\<close> visit: the error itself and what
  repeated \<open>Unwrap\<close> gives. An error wraps exactly the errors after the first.
\<close>

fun error_chain :: "goerror \<Rightarrow> goerror list" where
  "error_chain (ConvertFailed code cerr) = ConvertFailed code cerr # error_chain cerr"
| "error_chain (WrapError msg e) = WrapError msg e # error_chain e"
| "error_chain e = [e]"

definition wraps :: "goerror \<Rightarrow> goerror \<Rightarrow> bool" where
  "wraps outer inner = (inner \<in> set (tl (error_chain outer)))"

text \<open>
  \<open>maybeConvertStreamError\<close>; a nil error is \<open>None\<close>. The decoder
  \<open>httpCodeToWebtransportCode\<close>, whose source is missing, is the parameter \<open>decode\<close>.
\<close>

definition maybeConvertStreamError ::
  "(StreamErrorCode \<Rightarrow> goerror + ErrorCode) \<Rightarrow> goerror option \<Rightarrow> goerror option" where
  "maybeConvertStreamError decode err =
     (case err of
        None \<Rightarrow> None
      | Some e \<Rightarrow>
          (case errors_As_StreamError e of
             Some code \<Rightarrow>
               (case decode code of
                  Inl cerr \<Rightarrow> Some (ConvertFailed code cerr)
                | Inr errorCode \<Rightarrow> Some (WTStreamError errorCode))
           | None \<Rightarrow> Some e))"

section \<open>QUIC variable-length integers\<close>

text \<open>
  Modelled from the spec: \<open>quicvarint.Write\<close> and \<open>quicvarint.Read\<close> belong to the
  QUIC library, which is not part of the sources. The spec calls the encoding "QUIC's
  self-delimiting 1/2/4/8-byte variable-length integer encoding": the two top bits of
  the first byte give the length, the remaining bits hold the value in big-endian
  order, the shortest length that fits is written, and a value of more than 62 bits
  cannot be written (the library panics).
\<close>

definition quicvarint_Write :: "uint64 \<Rightarrow> fault + byte list" where
  "quicvarint_Write i =
     (if i \<le> 63 then Inr [ucast i]
      else if i \<le> 16383 then Inr [ucast (drop_bit 8 i) OR 0x40, ucast i]
      else if i \<le> 1073741823 then
        Inr [ucast (drop_bit 24 i) OR 0x80, ucast (drop_bit 16 i), ucast (drop_bit 8 i), ucast i]
      else if i \<le> 4611686018427387903 then
        Inr [ucast (drop_bit 56 i) OR 0xc0, ucast (drop_bit 48 i), ucast (drop_bit 40 i),
             ucast (drop_bit 32 i), ucast (drop_bit 24 i), ucast (drop_bit 16 i),
             ucast (drop_bit 8 i), ucast i]
      else Inl VarintOutOfRange)"

definition quicvarint_Read :: "byte list \<Rightarrow> goerror + uint64" where
  "quicvarint_Read r =
     (case r of
        [] \<Rightarrow> Inl EOF
      | firstByte # r1 \<Rightarrow>
          (let len = (2::nat) ^ unat (drop_bit 6 (firstByte AND 0xc0));
               b1 = firstByte AND 0x3f
           in if len = 1 then Inr (ucast b1)
              else (case r1 of
                [] \<Rightarrow> Inl EOF
              | b2 # r2 \<Rightarrow>
                  if len = 2 then Inr (ucast b2 + push_bit 8 (ucast b1))
                  else (case r2 of
                    b3 # b4 # r4 \<Rightarrow>
                      if len = 4 then
                        Inr (ucast b4 + push_bit 8 (ucast b3) + push_bit 16 (ucast b2)
                             + push_bit 24 (ucast b1))
                      else (case r4 of
                        b5 # b6 # b7 # b8 # r8 \<Rightarrow>
                          Inr (ucast b8 + push_bit 8 (ucast b7) + push_bit 16 (ucast b6)
                               + push_bit 24 (ucast b5) + push_bit 32 (ucast b4)
                               + push_bit 40 (ucast b3) + push_bit 48 (ucast b2)
                               + push_bit 56 (ucast b1))
                      | _ \<Rightarrow> Inl EOF)
                  | _ \<Rightarrow> Inl EOF))))"

text \<open>
  Modelled from the spec: the constants \<open>webTransportFrameType\<close>,
  \<open>webTransportStreamType\<close> and \<open>WebTransportBufferedStreamRejectedErrorCode\<close> are
  declared in a file that is missing; the spec gives \<open>0x41\<close>, \<open>0x54\<close> and
  \<open>0x3994bd84\<close>.
\<close>

definition webTransportFrameType :: uint64 where
  "webTransportFrameType = 0x41"

definition webTransportStreamType :: uint64 where
  "webTransportStreamType = 0x54"

definition WebTransportBufferedStreamRejectedErrorCode :: StreamErrorCode where
  "WebTransportBufferedStreamRejectedErrorCode = 0x3994bd84"

section \<open>The session object\<close>

text \<open>
  The stream adapters returned to the application wrap the QUIC stream they are made
  from and own no other state.
\<close>

datatype adapter = BidiAdapter qstream | RecvAdapter qstream | SendAdapter qstream

definition newStream :: "qstream \<Rightarrow> adapter" where
  "newStream str = BidiAdapter str"

definition newReceiveStream :: "qstream \<Rightarrow> adapter" where
  "newReceiveStream str = RecvAdapter str"

definition newSendStream :: "qstream \<Rightarrow> adapter" where
  "newSendStream str = SendAdapter str"

text \<open>
  The struct \<open>Conn\<close>. \<open>ctx_done\<close> says that \<open>c.ctx\<close> is cancelled. \<open>acceptChan\<close> and
  \<open>acceptUniChan\<close> are channels of capacity one carrying no data: the field says
  whether the slot is filled. \<open>rcvDatagramQueue\<close> is the content of the channel of
  capacity 128, oldest first. \<open>logged\<close> is what the logger was given: the payload
  length of each discarded datagram.
\<close>

record Conn =
  sessionID :: sessionID
  qconn_of :: qconn
  ctx_done :: bool
  requestStr_closed :: bool
  acceptQueue :: "qstream list"
  acceptChan :: bool
  acceptUniQueue :: "qstream list"
  acceptUniChan :: bool
  rcvDatagramQueue :: "byte list list"
  logged :: "nat list"

definition newConn :: "bool \<Rightarrow> sessionID \<Rightarrow> qconn \<Rightarrow> Conn" where
  "newConn parent_done sid q =
     \<lparr> sessionID = sid, qconn_of = q, ctx_done = parent_done, requestStr_closed = False,
       acceptQueue = [], acceptChan = False,
       acceptUniQueue = [], acceptUniChan = False,
       rcvDatagramQueue = [], logged = [] \<rparr>"

text \<open>
  \<open>addStream\<close> appends and then sends on \<open>acceptChan\<close> without blocking: the slot is
  filled afterwards whether or not it was before.
\<close>

definition addStream :: "Conn \<Rightarrow> qstream \<Rightarrow> Conn" where
  "addStream c str = c\<lparr>acceptQueue := acceptQueue c @ [str], acceptChan := True\<rparr>"

definition addUniStream :: "Conn \<Rightarrow> qstream \<Rightarrow> Conn" where
  "addUniStream c str = c\<lparr>acceptUniQueue := acceptUniQueue c @ [str], acceptUniChan := True\<rparr>"

text \<open>
  A \<open>select\<close> without default: of the cases that can proceed one is chosen, by the
  scheduler's pick; when none can, the caller parks.
\<close>

definition select_ready :: "'a list \<Rightarrow> nat \<Rightarrow> 'a option" where
  "select_ready ready pick =
     (if ready = [] then None else Some (ready ! (pick mod length ready)))"

datatype accept_case = SessionDone | CallerDone | ChanReady

definition accept_ready :: "bool \<Rightarrow> bool \<Rightarrow> bool \<Rightarrow> accept_case list" where
  "accept_ready sess_done caller_done chan =
     (if sess_done then [SessionDone] else []) @
     (if caller_done then [CallerDone] else []) @
     (if chan then [ChanReady] else [])"

fun next_pick :: "nat list \<Rightarrow> nat" where
  "next_pick [] = 0"
| "next_pick (p # ps) = p"

text \<open>
  \<open>AcceptStream\<close>, run without interleaving; \<open>caller_done\<close> says that the caller's
  context is cancelled and \<open>picks\<close> are the scheduler's picks for the selects the call
  goes through. A call that would park returns \<open>Blocked\<close>.
\<close>

function AcceptStream :: "Conn \<Rightarrow> bool \<Rightarrow> nat list \<Rightarrow> adapter res \<times> Conn" where
  "AcceptStream c caller_done picks =
     (case acceptQueue c of
        str # rest \<Rightarrow> (Ok (newStream str), c\<lparr>acceptQueue := rest\<rparr>)
      | [] \<Rightarrow>
          (case select_ready (accept_ready (ctx_done c) caller_done (acceptChan c))
                  (next_pick picks) of
             None \<Rightarrow> (Blocked, c)
           | Some SessionDone \<Rightarrow> (Fail (ContextErr SessionCtx), c)
           | Some CallerDone \<Rightarrow> (Fail (ContextErr CallerCtx), c)
           | Some ChanReady \<Rightarrow> AcceptStream (c\<lparr>acceptChan := False\<rparr>) caller_done (tl picks)))"
  by pat_completeness auto

termination AcceptStream
proof (relation "measure (\<lambda>(c, caller_done, picks). if acceptChan c then 1 else 0)")
  show "wf (measure (\<lambda>(c, caller_done, picks). if acceptChan c then 1 else (0::nat)))"
    by simp
next
  fix c :: Conn and caller_done :: bool and picks :: "nat list" and x2 :: accept_case
  assume "select_ready (accept_ready (ctx_done c) caller_done (acceptChan c)) (next_pick picks)
            = Some x2" and "x2 = ChanReady"
  then have ne: "accept_ready (ctx_done c) caller_done (acceptChan c) \<noteq> []"
    and at: "accept_ready (ctx_done c) caller_done (acceptChan c)
               ! (next_pick picks mod length (accept_ready (ctx_done c) caller_done (acceptChan c)))
             = ChanReady"
    by (auto simp: select_ready_def split: if_splits)
  have "next_pick picks mod length (accept_ready (ctx_done c) caller_done (acceptChan c))
          < length (accept_ready (ctx_done c) caller_done (acceptChan c))"
    using ne by simp
  then have "ChanReady \<in> set (accept_ready (ctx_done c) caller_done (acceptChan c))"
    using at by (metis nth_mem)
  then have "acceptChan c"
    by (auto simp: accept_ready_def split: if_splits)
  then show "((c\<lparr>acceptChan := False\<rparr>, caller_done, tl picks), (c, caller_done, picks))
      \<in> measure (\<lambda>(c, caller_done, picks). if acceptChan c then 1 else 0)"
    by simp
qed

declare AcceptStream.simps [simp del]

function AcceptUniStream :: "Conn \<Rightarrow> bool \<Rightarrow> nat list \<Rightarrow> adapter res \<times> Conn" where
  "AcceptUniStream c caller_done picks =
     (case acceptUniQueue c of
        str # rest \<Rightarrow> (Ok (newReceiveStream str), c\<lparr>acceptUniQueue := rest\<rparr>)
      | [] \<Rightarrow>
          (case select_ready (accept_ready (ctx_done c) caller_done (acceptUniChan c))
                  (next_pick picks) of
             None \<Rightarrow> (Blocked, c)
           | Some SessionDone \<Rightarrow> (Fail (ContextErr SessionCtx), c)
           | Some CallerDone \<Rightarrow> (Fail (ContextErr CallerCtx), c)
           | Some ChanReady \<Rightarrow>
               AcceptUniStream (c\<lparr>acceptUniChan := False\<rparr>) caller_done (tl picks)))"
  by pat_completeness auto

termination AcceptUniStream
proof (relation "measure (\<lambda>(c, caller_done, picks). if acceptUniChan c then 1 else 0)")
  show "wf (measure (\<lambda>(c, caller_done, picks). if acceptUniChan c then 1 else (0::nat)))"
    by simp
next
  fix c :: Conn and caller_done :: bool and picks :: "nat list" and x2 :: accept_case
  assume "select_ready (accept_ready (ctx_done c) caller_done (acceptUniChan c))
            (next_pick picks) = Some x2" and "x2 = ChanReady"
  then have ne: "accept_ready (ctx_done c) caller_done (acceptUniChan c) \<noteq> []"
    and at: "accept_ready (ctx_done c) caller_done (acceptUniChan c)
               ! (next_pick picks mod length (accept_ready (ctx_done c) caller_done (acceptUniChan c)))
             = ChanReady"
    by (auto simp: select_ready_def split: if_splits)
  have "next_pick picks mod length (accept_ready (ctx_done c) caller_done (acceptUniChan c))
          < length (accept_ready (ctx_done c) caller_done (acceptUniChan c))"
    using ne by simp
  then have "ChanReady \<in> set (accept_ready (ctx_done c) caller_done (acceptUniChan c))"
    using at by (metis nth_mem)
  then have "acceptUniChan c"
    by (auto simp: accept_ready_def split: if_splits)
  then show "((c\<lparr>acceptUniChan := False\<rparr>, caller_done, tl picks), (c, caller_done, picks))
      \<in> measure (\<lambda>(c, caller_done, picks). if acceptUniChan c then 1 else 0)"
    by simp
qed

declare AcceptUniStream.simps [simp del]

text \<open>
  The QUIC layer as the openers see it: whether opening a stream fails, the stream the
  next successful open returns, whether a write on a stream fails, and the writes that
  were issued and succeeded, in order, each with the stream it went to.
\<close>

record quicEnv =
  open_err :: "goerror option"
  open_uni_err :: "goerror option"
  next_stream :: qstream
  write_err :: "qstream \<Rightarrow> goerror option"
  written :: "(qstream \<times> byte list) list"

definition qconn_OpenStream :: "quicEnv \<Rightarrow> qstream res \<times> quicEnv" where
  "qconn_OpenStream q =
     (case open_err q of
        Some e \<Rightarrow> (Fail e, q)
      | None \<Rightarrow> (Ok (next_stream q), q\<lparr>next_stream := Suc (next_stream q)\<rparr>))"

definition qconn_OpenUniStream :: "quicEnv \<Rightarrow> qstream res \<times> quicEnv" where
  "qconn_OpenUniStream q =
     (case open_uni_err q of
        Some e \<Rightarrow> (Fail e, q)
      | None \<Rightarrow> (Ok (next_stream q), q\<lparr>next_stream := Suc (next_stream q)\<rparr>))"

definition str_Write :: "quicEnv \<Rightarrow> qstream \<Rightarrow> byte list \<Rightarrow> goerror option \<times> quicEnv" where
  "str_Write q str b =
     (case write_err q str of
        Some e \<Rightarrow> (Some e, q)
      | None \<Rightarrow> (None, q\<lparr>written := written q @ [(str, b)]\<rparr>))"

text \<open>
  \<open>writeStreamHeader\<close> and \<open>writeUniStreamHeader\<close>: both varints go into one buffer,
  which is written with one call.
\<close>

definition writeStreamHeader :: "Conn \<Rightarrow> qstream \<Rightarrow> quicEnv \<Rightarrow> unit res \<times> quicEnv" where
  "writeStreamHeader c str q =
     (case quicvarint_Write webTransportFrameType of
        Inl f \<Rightarrow> (Panic f, q)
      | Inr b1 \<Rightarrow>
          (case quicvarint_Write (sessionID c) of
             Inl f \<Rightarrow> (Panic f, q)
           | Inr b2 \<Rightarrow>
               (case str_Write q str (b1 @ b2) of
                  (Some err, q') \<Rightarrow> (Fail err, q')
                | (None, q') \<Rightarrow> (Ok (), q'))))"

definition writeUniStreamHeader :: "Conn \<Rightarrow> qstream \<Rightarrow> quicEnv \<Rightarrow> unit res \<times> quicEnv" where
  "writeUniStreamHeader c str q =
     (case quicvarint_Write webTransportStreamType of
        Inl f \<Rightarrow> (Panic f, q)
      | Inr b1 \<Rightarrow>
          (case quicvarint_Write (sessionID c) of
             Inl f \<Rightarrow> (Panic f, q)
           | Inr b2 \<Rightarrow>
               (case str_Write q str (b1 @ b2) of
                  (Some err, q') \<Rightarrow> (Fail err, q')
                | (None, q') \<Rightarrow> (Ok (), q'))))"

definition OpenStream :: "Conn \<Rightarrow> quicEnv \<Rightarrow> adapter res \<times> quicEnv" where
  "OpenStream c q =
     (case qconn_OpenStream q of
        (Ok str, q1) \<Rightarrow>
          (case writeStreamHeader c str q1 of
             (Ok u, q2) \<Rightarrow> (Ok (newStream str), q2)
           | (Fail err, q2) \<Rightarrow> (Fail err, q2)
           | (Panic f, q2) \<Rightarrow> (Panic f, q2)
           | (Blocked, q2) \<Rightarrow> (Blocked, q2))
      | (Fail err, q1) \<Rightarrow> (Fail err, q1)
      | (Panic f, q1) \<Rightarrow> (Panic f, q1)
      | (Blocked, q1) \<Rightarrow> (Blocked, q1))"

definition OpenUniStream :: "Conn \<Rightarrow> quicEnv \<Rightarrow> adapter res \<times> quicEnv" where
  "OpenUniStream c q =
     (case qconn_OpenUniStream q of
        (Ok str, q1) \<Rightarrow>
          (case writeUniStreamHeader c str q1 of
             (Ok u, q2) \<Rightarrow> (Ok (newSendStream str), q2)
           | (Fail err, q2) \<Rightarrow> (Fail err, q2)
           | (Panic f, q2) \<Rightarrow> (Panic f, q2)
           | (Blocked, q2) \<Rightarrow> (Blocked, q2))
      | (Fail err, q1) \<Rightarrow> (Fail err, q1)
      | (Panic f, q1) \<Rightarrow> (Panic f, q1)
      | (Blocked, q1) \<Rightarrow> (Blocked, q1))"

text \<open>
  The datagram queue. \<open>newConn\<close> makes the channel with capacity 128. \<open>handleDatagram\<close>
  of \<open>Conn\<close> sends without blocking and logs the datagram it cannot send.
  \<open>ReceiveMessage\<close> selects between the head of the queue and the session's context.
\<close>

definition rcvDatagramQueueCap :: nat where
  "rcvDatagramQueueCap = 128"

definition Conn_handleDatagram :: "Conn \<Rightarrow> byte list \<Rightarrow> Conn" where
  "Conn_handleDatagram c data =
     (if length (rcvDatagramQueue c) < rcvDatagramQueueCap
      then c\<lparr>rcvDatagramQueue := rcvDatagramQueue c @ [data]\<rparr>
      else c\<lparr>logged := logged c @ [length data]\<rparr>)"

datatype receive_case = DataReady "byte list" "byte list list" | ConnDone

definition ReceiveMessage :: "Conn \<Rightarrow> nat \<Rightarrow> byte list res \<times> Conn" where
  "ReceiveMessage c pick =
     (case select_ready
             ((case rcvDatagramQueue c of [] \<Rightarrow> [] | data # rest \<Rightarrow> [DataReady data rest]) @
              (if ctx_done c then [ConnDone] else []))
             pick of
        None \<Rightarrow> (Blocked, c)
      | Some (DataReady data rest) \<Rightarrow> (Ok data, c\<lparr>rcvDatagramQueue := rest\<rparr>)
      | Some ConnDone \<Rightarrow> (Fail (ErrorString ''conn closed''), c))"

text \<open>
  \<open>SendMessage\<close>: the datagram handed to the QUIC layer is the varint of the session
  id followed by the payload.
\<close>

definition SendMessage :: "Conn \<Rightarrow> byte list \<Rightarrow> fault + byte list" where
  "SendMessage c b =
     (case quicvarint_Write (sessionID c) of
        Inl f \<Rightarrow> Inl f
      | Inr v \<Rightarrow> Inr (v @ b))"

definition Close :: "Conn \<Rightarrow> Conn" where
  "Close c = c\<lparr>ctx_done := True, requestStr_closed := True\<rparr>"

text \<open>
  Runs of one session: the manager enqueues streams and datagrams, the application
  accepts, receives and closes, in any order. Beside the session, a run keeps what an
  observer sees: the streams handed to \<open>addStream\<close> and \<open>addUniStream\<close>, the adapters
  the accept calls returned, the datagrams that arrived, those whose arrival made the
  queue grow, and those \<open>ReceiveMessage\<close> returned.
\<close>

datatype conn_op =
    AddStreamOp qstream
  | AddUniStreamOp qstream
  | AcceptStreamOp bool "nat list"
  | AcceptUniStreamOp bool "nat list"
  | DatagramOp "byte list"
  | ReceiveMessageOp nat
  | CloseOp

record observed =
  added :: "qstream list"
  added_uni :: "qstream list"
  accepted :: "adapter list"
  accepted_uni :: "adapter list"
  arrived :: "byte list list"
  enqueued :: "byte list list"
  received :: "byte list list"

definition nothing_observed :: observed where
  "nothing_observed =
     \<lparr> added = [], added_uni = [], accepted = [], accepted_uni = [],
       arrived = [], enqueued = [], received = [] \<rparr>"

fun conn_step :: "conn_op \<Rightarrow> Conn \<times> observed \<Rightarrow> Conn \<times> observed" where
  "conn_step (AddStreamOp str) (c, t) = (addStream c str, t\<lparr>added := added t @ [str]\<rparr>)"
| "conn_step (AddUniStreamOp str) (c, t) =
     (addUniStream c str, t\<lparr>added_uni := added_uni t @ [str]\<rparr>)"
| "conn_step (AcceptStreamOp caller_done picks) (c, t) =
     (case AcceptStream c caller_done picks of
        (Ok a, c') \<Rightarrow> (c', t\<lparr>accepted := accepted t @ [a]\<rparr>)
      | (r, c') \<Rightarrow> (c', t))"
| "conn_step (AcceptUniStreamOp caller_done picks) (c, t) =
     (case AcceptUniStream c caller_done picks of
        (Ok a, c') \<Rightarrow> (c', t\<lparr>accepted_uni := accepted_uni t @ [a]\<rparr>)
      | (r, c') \<Rightarrow> (c', t))"
| "conn_step (DatagramOp data) (c, t) =
     (let c' = Conn_handleDatagram c data
      in (c', t\<lparr>arrived := arrived t @ [data],
               enqueued := (if length (rcvDatagramQueue c') = Suc (length (rcvDatagramQueue c))
                            then enqueued t @ [data] else enqueued t)\<rparr>))"
| "conn_step (ReceiveMessageOp pick) (c, t) =
     (case ReceiveMessage c pick of
        (Ok data, c') \<Rightarrow> (c', t\<lparr>received := received t @ [data]\<rparr>)
      | (r, c') \<Rightarrow> (c', t))"
| "conn_step CloseOp (c, t) = (Close c, t)"

fun conn_run :: "conn_op list \<Rightarrow> Conn \<times> observed \<Rightarrow> Conn \<times> observed" where
  "conn_run [] s = s"
| "conn_run (x # xs) s = conn_run xs (conn_step x s)"

section \<open>The session manager\<close>

text \<open>
  The structs \<open>sessionKey\<close> and \<open>session\<close>. \<open>created\<close> says that the channel is
  closed. \<open>counter\<close> is a Go \<open>int\<close>; it counts parked goroutines, far fewer than
  \<open>2 ^ 63\<close>, so it is an unbounded integer here. \<open>conn\<close> is a pointer to a \<open>Conn\<close>,
  \<open>None\<close> for nil.
\<close>

type_synonym sessionKey = "qconn \<times> sessionID"

record session =
  created :: bool
  counter :: int
  conn :: "nat option"

text \<open>
  The goroutines that \<open>AddStream\<close> and \<open>AddUniStream\<close> start hold the stream, the
  pointer to the session and the key. A goroutine of \<open>handleUniStream\<close> that has
  entered its \<open>select\<close> also holds the \<open>Conn\<close> whose context it watches.
\<close>

datatype task =
    BidiParked qstream nat sessionKey
  | UniSpawned qstream nat sessionKey
  | UniParked qstream nat sessionKey nat

fun task_session :: "task \<Rightarrow> nat" where
  "task_session (BidiParked str sess key) = sess"
| "task_session (UniSpawned str sess key) = sess"
| "task_session (UniParked str sess key c) = sess"

fun task_key :: "task \<Rightarrow> sessionKey" where
  "task_key (BidiParked str sess key) = key"
| "task_key (UniSpawned str sess key) = key"
| "task_key (UniParked str sess key c) = key"

datatype stream_call = CancelRead StreamErrorCode | CancelWrite StreamErrorCode

text \<open>
  The struct \<open>sessionManager\<close> with the objects its pointers reach: \<open>session_heap\<close>
  holds the \<open>session\<close> objects (\<open>session_next\<close> is the first unused address) and
  \<open>conn_heap\<close> the \<open>Conn\<close> objects, which the application shares. \<open>mctx_done\<close> says
  that \<open>m.ctx\<close> is cancelled. \<open>tasks\<close> are the goroutines counted by \<open>refCount\<close>,
  \<open>pumps\<close> the connections a datagram pump was started for, and \<open>stream_log\<close> the
  calls made on QUIC streams, in order.
\<close>

record sessionManager =
  mctx_done :: bool
  timeout :: nat
  sessions :: "sessionKey \<rightharpoonup> nat"
  conns :: "qconn set"
  session_heap :: "nat \<Rightarrow> session"
  session_next :: nat
  conn_heap :: "nat \<Rightarrow> Conn"
  tasks :: "task list"
  pumps :: "qconn list"
  stream_log :: "(qstream \<times> stream_call) list"

definition newSessionManager :: "nat \<Rightarrow> (nat \<Rightarrow> Conn) \<Rightarrow> sessionManager" where
  "newSessionManager t heap =
     \<lparr> mctx_done = False, timeout = t, sessions = Map.empty, conns = {},
       session_heap = (\<lambda>a. \<lparr>created = False, counter = 0, conn = None\<rparr>),
       session_next = 0, conn_heap = heap, tasks = [], pumps = [], stream_log = [] \<rparr>"

text \<open>Writing through a pointer to a session or to a \<open>Conn\<close>.\<close>

definition session_store :: "sessionManager \<Rightarrow> nat \<Rightarrow> (session \<Rightarrow> session) \<Rightarrow> sessionManager" where
  "session_store m sess f = m\<lparr>session_heap := (session_heap m)(sess := f (session_heap m sess))\<rparr>"

definition conn_store :: "sessionManager \<Rightarrow> nat \<Rightarrow> (Conn \<Rightarrow> Conn) \<Rightarrow> sessionManager" where
  "conn_store m c f = m\<lparr>conn_heap := (conn_heap m)(c := f (conn_heap m c))\<rparr>"

text \<open>\<open>&session{created: make(chan struct{})}\<close> stored under \<open>key\<close>.\<close>

definition new_pending_session :: "sessionManager \<Rightarrow> sessionKey \<Rightarrow> sessionManager" where
  "new_pending_session m key =
     m\<lparr>session_heap := (session_heap m)
          (session_next m := \<lparr>created = False, counter = 0, conn = None\<rparr>),
       session_next := Suc (session_next m),
       sessions := (sessions m)(key \<mapsto> session_next m)\<rparr>"

definition AddStream :: "sessionManager \<Rightarrow> qconn \<Rightarrow> qstream \<Rightarrow> sessionID \<Rightarrow> sessionManager" where
  "AddStream m q str sid =
     (let key = (q, sid) in
      case sessions m key of
        Some sess \<Rightarrow>
          (case conn (session_heap m sess) of
             Some c \<Rightarrow> conn_store m c (\<lambda>x. addStream x str)
           | None \<Rightarrow>
               (let m1 = session_store m sess (\<lambda>s. s\<lparr>counter := counter s + 1\<rparr>)
                in m1\<lparr>tasks := tasks m1 @ [BidiParked str sess key]\<rparr>))
      | None \<Rightarrow>
          (let sess = session_next m;
               m0 = new_pending_session m key;
               m1 = session_store m0 sess (\<lambda>s. s\<lparr>counter := counter s + 1\<rparr>)
           in m1\<lparr>tasks := tasks m1 @ [BidiParked str sess key]\<rparr>))"

definition AddUniStream :: "sessionManager \<Rightarrow> qconn \<Rightarrow> qstream \<Rightarrow> sessionID \<Rightarrow> sessionManager" where
  "AddUniStream m q str sid =
     (let key = (q, sid) in
      case sessions m key of
        Some sess \<Rightarrow>
          (case conn (session_heap m sess) of
             Some c \<Rightarrow> conn_store m c (\<lambda>x. addUniStream x str)
           | None \<Rightarrow>
               (let m1 = session_store m sess (\<lambda>s. s\<lparr>counter := counter s + 1\<rparr>)
                in m1\<lparr>tasks := tasks m1 @ [UniSpawned str sess key]\<rparr>))
      | None \<Rightarrow>
          (let sess = session_next m;
               m0 = new_pending_session m key;
               m1 = session_store m0 sess (\<lambda>s. s\<lparr>counter := counter s + 1\<rparr>)
           in m1\<lparr>tasks := tasks m1 @ [UniSpawned str sess key]\<rparr>))"

text \<open>
  The end of both parking functions, under the lock: the counter goes down, and the
  entry under \<open>key\<close> is deleted when the counter is zero and no session is attached.
\<close>

definition leave_session :: "sessionManager \<Rightarrow> nat \<Rightarrow> sessionKey \<Rightarrow> sessionManager" where
  "leave_session m sess key =
     (let m1 = session_store m sess (\<lambda>s. s\<lparr>counter := counter s - 1\<rparr>)
      in if counter (session_heap m1 sess) = 0 \<and> conn (session_heap m1 sess) = None
         then m1\<lparr>sessions := (sessions m1)(key := None)\<rparr>
         else m1)"

text \<open>
  What wakes a parked goroutine. The timer of a stream can always fire; the other
  cases can proceed only when their channel is closed. A case that cannot proceed, or
  that the \<open>select\<close> does not have, leaves the goroutine parked.
\<close>

datatype wake = SessionCtxDone | Created | TimerFired | ManagerCtxDone

definition handleStream ::
  "sessionManager \<Rightarrow> qstream \<Rightarrow> nat \<Rightarrow> sessionKey \<Rightarrow> wake \<Rightarrow> sessionManager res" where
  "handleStream m str sess key w =
     (case w of
        SessionCtxDone \<Rightarrow> Blocked
      | Created \<Rightarrow>
          if created (session_heap m sess) then
            (case conn (session_heap m sess) of
               None \<Rightarrow> Panic NilPointerDereference
             | Some c \<Rightarrow> Ok (leave_session (conn_store m c (\<lambda>x. addStream x str)) sess key))
          else Blocked
      | TimerFired \<Rightarrow>
          Ok (leave_session
                (m\<lparr>stream_log := stream_log m @
                     [(str, CancelRead WebTransportBufferedStreamRejectedErrorCode),
                      (str, CancelWrite WebTransportBufferedStreamRejectedErrorCode)]\<rparr>)
                sess key)
      | ManagerCtxDone \<Rightarrow>
          if mctx_done m then Ok (leave_session m sess key) else Blocked)"

text \<open>
  \<open>handleUniStream\<close>. Entering the \<open>select\<close> evaluates the channel operands, among them
  \<open>session.conn.ctx.Done()\<close>, which reads a field through \<open>session.conn\<close>.
\<close>

definition handleUniStream_enter :: "sessionManager \<Rightarrow> nat \<Rightarrow> nat res" where
  "handleUniStream_enter m sess =
     (case conn (session_heap m sess) of
        None \<Rightarrow> Panic NilPointerDereference
      | Some c \<Rightarrow> Ok c)"

definition handleUniStream_wake ::
  "sessionManager \<Rightarrow> qstream \<Rightarrow> nat \<Rightarrow> sessionKey \<Rightarrow> nat \<Rightarrow> wake \<Rightarrow> sessionManager res" where
  "handleUniStream_wake m str sess key watched w =
     (case w of
        SessionCtxDone \<Rightarrow>
          if ctx_done (conn_heap m watched) then Ok (leave_session m sess key) else Blocked
      | Created \<Rightarrow>
          if created (session_heap m sess) then
            (case conn (session_heap m sess) of
               None \<Rightarrow> Panic NilPointerDereference
             | Some c \<Rightarrow> Ok (leave_session (conn_store m c (\<lambda>x. addUniStream x str)) sess key))
          else Blocked
      | TimerFired \<Rightarrow>
          Ok (leave_session
                (m\<lparr>stream_log := stream_log m @
                     [(str, CancelRead WebTransportBufferedStreamRejectedErrorCode)]\<rparr>)
                sess key)
      | ManagerCtxDone \<Rightarrow>
          if mctx_done m then Ok (leave_session m sess key) else Blocked)"

definition handleUniStream ::
  "sessionManager \<Rightarrow> qstream \<Rightarrow> nat \<Rightarrow> sessionKey \<Rightarrow> wake \<Rightarrow> sessionManager res" where
  "handleUniStream m str sess key w =
     (case handleUniStream_enter m sess of
        Ok watched \<Rightarrow> handleUniStream_wake m str sess key watched w
      | Fail err \<Rightarrow> Fail err
      | Panic f \<Rightarrow> Panic f
      | Blocked \<Rightarrow> Blocked)"

text \<open>
  \<open>AddSession\<close>. Closing \<open>created\<close> a second time panics. The pointer \<open>c\<close> is the one
  \<open>newConn\<close> returned, never nil.
\<close>

definition AddSession :: "sessionManager \<Rightarrow> qconn \<Rightarrow> sessionID \<Rightarrow> nat \<Rightarrow> sessionManager res" where
  "AddSession m q sid c =
     (let key = (q, sid) in
      case sessions m key of
        Some sess \<Rightarrow>
          (let m1 = session_store m sess (\<lambda>s. s\<lparr>conn := Some c\<rparr>)
           in if created (session_heap m1 sess) then Panic CloseOfClosedChannel
              else Ok (session_store m1 sess (\<lambda>s. s\<lparr>created := True\<rparr>)))
      | None \<Rightarrow>
          (let m1 = m\<lparr>session_heap := (session_heap m)
                         (session_next m := \<lparr>created = True, counter = 0, conn = Some c\<rparr>),
                      session_next := Suc (session_next m),
                      sessions := (sessions m)(key \<mapsto> session_next m)\<rparr>
           in if q \<in> conns m1 then Ok m1
              else Ok (m1\<lparr>conns := insert q (conns m1), pumps := pumps m1 @ [q]\<rparr>)))"

text \<open>
  The datagram pump of a connection, fed with what \<open>qconn.ReceiveMessage\<close> returns
  call after call. It returns at the first error, and waits when nothing is left.
\<close>

fun sessionManager_handleDatagram ::
  "sessionManager \<Rightarrow> qconn \<Rightarrow> (goerror + byte list) list \<Rightarrow> sessionManager res" where
  "sessionManager_handleDatagram m q [] = Ok m"
| "sessionManager_handleDatagram m q (Inl err # rest) = Ok m"
| "sessionManager_handleDatagram m q (Inr data # rest) =
     (case quicvarint_Read data of
        Inl err \<Rightarrow> sessionManager_handleDatagram m q rest
      | Inr v \<Rightarrow>
          (case sessions m (q, v) of
             Some sess \<Rightarrow>
               (case data of
                  [] \<Rightarrow> Panic SliceBoundsOutOfRange
                | b # payload \<Rightarrow>
                    (case conn (session_heap m sess) of
                       None \<Rightarrow> Panic NilPointerDereference
                     | Some c \<Rightarrow>
                         sessionManager_handleDatagram
                           (conn_store m c (\<lambda>x. Conn_handleDatagram x payload)) q rest))
           | None \<Rightarrow> sessionManager_handleDatagram m q rest))"

definition sessionManager_Close :: "sessionManager \<Rightarrow> sessionManager" where
  "sessionManager_Close m = m\<lparr>mctx_done := True\<rparr>"

text \<open>
  Runs of the manager. Every operation holds the lock for its whole critical section,
  so a run is a sequence of complete operations: the three entry points, a step of
  the goroutine at some position of \<open>tasks\<close> (entering the \<open>select\<close>, or waking and
  leaving), the cancellation of the manager, and the close of a session by the
  application. A step that cannot proceed changes nothing; a panic ends the run.
\<close>

datatype manager_op =
    AddStreamCall qconn qstream sessionID
  | AddUniStreamCall qconn qstream sessionID
  | AddSessionCall qconn sessionID nat
  | TaskStep nat wake
  | ManagerClose
  | ConnClose nat

definition drop_task :: "nat \<Rightarrow> sessionManager \<Rightarrow> sessionManager" where
  "drop_task i m = m\<lparr>tasks := take i (tasks m) @ drop (Suc i) (tasks m)\<rparr>"

definition task_step :: "sessionManager \<Rightarrow> nat \<Rightarrow> wake \<Rightarrow> sessionManager res" where
  "task_step m i w =
     (if length (tasks m) \<le> i then Blocked
      else case tasks m ! i of
        BidiParked str sess key \<Rightarrow>
          (case handleStream m str sess key w of
             Ok m' \<Rightarrow> Ok (drop_task i m')
           | r \<Rightarrow> r)
      | UniSpawned str sess key \<Rightarrow>
          (case handleUniStream_enter m sess of
             Ok watched \<Rightarrow> Ok (m\<lparr>tasks := (tasks m)[i := UniParked str sess key watched]\<rparr>)
           | Fail err \<Rightarrow> Fail err
           | Panic f \<Rightarrow> Panic f
           | Blocked \<Rightarrow> Blocked)
      | UniParked str sess key watched \<Rightarrow>
          (case handleUniStream_wake m str sess key watched w of
             Ok m' \<Rightarrow> Ok (drop_task i m')
           | r \<Rightarrow> r))"

fun exec :: "manager_op \<Rightarrow> sessionManager \<Rightarrow> sessionManager res" where
  "exec (AddStreamCall q str sid) m = Ok (AddStream m q str sid)"
| "exec (AddUniStreamCall q str sid) m = Ok (AddUniStream m q str sid)"
| "exec (AddSessionCall q sid c) m = AddSession m q sid c"
| "exec (TaskStep i w) m = task_step m i w"
| "exec ManagerClose m = Ok (sessionManager_Close m)"
| "exec (ConnClose c) m = Ok (conn_store m c Close)"

fun run :: "manager_op list \<Rightarrow> sessionManager \<Rightarrow> sessionManager res" where
  "run [] m = Ok m"
| "run (x # xs) m =
     (case exec x m of
        Ok m' \<Rightarrow> run xs m'
      | Blocked \<Rightarrow> run xs m
      | Fail err \<Rightarrow> Fail err
      | Panic f \<Rightarrow> Panic f)"

text \<open>
  What the proof of the map invariant carries along: the sessions in the map are
  allocated, no session is stored under two keys, every parked goroutine holds the
  session that the map has under its key, and the counter of a session in the map is
  the number of goroutines that hold it.
\<close>

definition waiting :: "task list \<Rightarrow> nat \<Rightarrow> nat" where
  "waiting ts sess = length (filter (\<lambda>t. task_session t = sess) ts)"

definition manager_inv :: "sessionManager \<Rightarrow> bool" where
  "manager_inv m \<longleftrightarrow>
     (\<forall>k r. sessions m k = Some r \<longrightarrow> r < session_next m) \<and>
     (\<forall>k k' r. sessions m k = Some r \<longrightarrow> sessions m k' = Some r \<longrightarrow> k = k') \<and>
     (\<forall>t \<in> set (tasks m). sessions m (task_key t) = Some (task_session t)) \<and>
     (\<forall>k r. sessions m k = Some r \<longrightarrow>
        counter (session_heap m r) = int (waiting (tasks m) r)) \<and>
     (\<forall>k r. sessions m k = Some r \<longrightarrow>
        \<not> (counter (session_heap m r) = 0 \<and> conn (session_heap m r) = None))"

section \<open>Properties of the error-code mapping\<close>

lemma unat_ucast_32_64: "unat (ucast (w :: 32 word) :: 64 word) = unat w"
proof -
  have "unat w < 2 ^ 32" using unsigned_less [of w] by simp
  then have "unat w < 2 ^ 64" by simp
  then show ?thesis by (simp add: unsigned_ucast_eq take_bit_nat_eq_self)
qed

lemma shifted_decomp: "(n::nat) + n div 30 = 31 * (n div 30) + n mod 30"
  by presburger

lemma gap_free: "((91141958510778::nat) + n + n div 30) mod 31 \<noteq> 0"
proof -
  have "(91141958510778::nat) = 31 * 2940063177767 + 1" by simp
  then have "91141958510778 + n + n div 30 = 31 * (2940063177767 + n div 30) + (1 + n mod 30)"
    using shifted_decomp [of n] by simp
  then have "(91141958510778 + n + n div 30) mod 31 = (1 + n mod 30) mod 31"
    by (metis mod_mult_self4)
  moreover have "1 + n mod 30 < 31" by simp
  ultimately show ?thesis by simp
qed

lemma unshift: "((n::nat) + n div 30) - (n + n div 30) div 31 = n"
proof -
  have "(n + n div 30) div 31 = n div 30"
    using shifted_decomp [of n] by simp
  then show ?thesis by simp
qed

lemma unat_webtransportCodeToHTTPCode:
  "unat (webtransportCodeToHTTPCode c) = 91141958510811 + unat c + unat c div 30"
proof -
  have b: "unat c < 2 ^ 32" using unsigned_less [of c] by simp
  have 1: "unat firstErrorCode = 91141958510811" by (simp add: firstErrorCode_def)
  have 2: "unat (ucast (c div 0x1e) :: 64 word) = unat c div 30"
    by (simp add: unat_ucast_32_64 unat_div)
  have "unat firstErrorCode + unat (ucast c :: 64 word) < 2 ^ LENGTH(64)"
    using b by (simp add: 1 unat_ucast_32_64)
  then have 3: "unat (firstErrorCode + ucast c :: 64 word) = 91141958510811 + unat c"
    by (simp add: unat_add_lem [THEN iffD1] 1 unat_ucast_32_64)
  have "unat (firstErrorCode + ucast c :: 64 word) + unat (ucast (c div 0x1e) :: 64 word)
          < 2 ^ LENGTH(64)"
    using b by (simp add: 2 3)
  then have "unat (firstErrorCode + ucast c + ucast (c div 0x1e) :: 64 word)
          = 91141958510811 + unat c + unat c div 30"
    by (simp add: unat_add_lem [THEN iffD1] 2 3)
  then show ?thesis
    unfolding webtransportCodeToHTTPCode_def by simp
qed

text \<open>
  Claim C1. Every WebTransport application error code (any 32-bit value) survives the
  round trip: decoding the HTTP/3 reset code that \<open>webtransportCodeToHTTPCode\<close>
  produces for \<open>c\<close> succeeds and gives \<open>c\<close> back.
\<close>

theorem error_code_roundtrip:
  "httpCodeToWebtransportCode (webtransportCodeToHTTPCode c) = Inr c"
proof -
  define n where "n = unat c"
  define h where "h = webtransportCodeToHTTPCode c"
  have b: "n < 2 ^ 32" unfolding n_def using unsigned_less [of c] by simp
  have hn: "unat h = 91141958510811 + n + n div 30"
    unfolding h_def n_def by (rule unat_webtransportCodeToHTTPCode)
  have ge: "\<not> h < firstErrorCode"
    by (simp add: word_less_nat_alt hn firstErrorCode_def)
  have le: "\<not> lastErrorCode < h"
    using b by (simp add: word_less_nat_alt hn lastErrorCode_def)
  have "firstErrorCode \<le> h" using ge by simp
  then have "unat (h - firstErrorCode) = unat h - unat firstErrorCode" by (rule unat_sub)
  then have sh: "unat (h - firstErrorCode) = n + n div 30"
    by (simp add: hn firstErrorCode_def)
  have "(0x21 :: 64 word) \<le> h" by (simp add: word_le_nat_alt hn)
  then have "unat (h - 0x21) = unat h - unat (0x21 :: 64 word)" by (rule unat_sub)
  then have g1: "unat (h - 0x21) = 91141958510778 + n + n div 30"
    by (simp add: hn)
  have gap: "(h - 0x21) mod 0x1f \<noteq> 0"
  proof
    assume "(h - 0x21) mod 0x1f = 0"
    then have "unat ((h - 0x21) mod 0x1f) = 0" by simp
    then show False using gap_free [of n] by (simp add: unat_mod g1)
  qed
  have "unat ((h - firstErrorCode) div 0x1f) = (n + n div 30) div 31"
    by (simp add: unat_div sh)
  moreover have "(h - firstErrorCode) div 0x1f \<le> h - firstErrorCode"
    by (simp add: word_le_nat_alt unat_div)
  ultimately have "unat ((h - firstErrorCode) - (h - firstErrorCode) div 0x1f) = n"
    using unshift [of n] by (simp add: unat_sub sh)
  then have "ucast ((h - firstErrorCode) - (h - firstErrorCode) div 0x1f) = c"
    unfolding n_def by (metis of_nat_unat ucast_id)
  then show ?thesis
    using ge le gap unfolding httpCodeToWebtransportCode_def h_def [symmetric]
    by (simp add: Let_def)
qed

section \<open>Properties of the stream error conversion\<close>

lemma decode_zero: "httpCodeToWebtransportCode 0 = Inl MappingError"
  by (simp add: httpCodeToWebtransportCode_def firstErrorCode_def)

lemma decode_gap: "httpCodeToWebtransportCode 0x52e4a40fa8f9 = Inl MappingError"
  by (simp add: httpCodeToWebtransportCode_def firstErrorCode_def lastErrorCode_def)

lemma decode_41: "httpCodeToWebtransportCode 0x52e4a40fa91e = Inr 0x41"
  by (simp add: httpCodeToWebtransportCode_def firstErrorCode_def lastErrorCode_def)

lemma enc_41: "webtransportCodeToHTTPCode 0x41 = 0x52e4a40fa91e"
  by (simp add: webtransportCodeToHTTPCode_def firstErrorCode_def)

text \<open>
  Claim C6 says that the error returned for a code that cannot be decoded wraps the
  underlying stream error. The result wraps the decoder's error only: the
  stream error it was made from is not on its \<open>Unwrap\<close> chain. Here the stream
  error carries code 0, which lies below the range.
\<close>

theorem convert_replaces_stream_error:
  "maybeConvertStreamError httpCodeToWebtransportCode (Some (QuicStreamError 0))
     = Some (ConvertFailed 0 MappingError)
   \<and> \<not> wraps (ConvertFailed 0 MappingError) (QuicStreamError 0)"
  by (simp add: maybeConvertStreamError_def decode_zero wraps_def)

text \<open>
  Claim C6, as the code has it. \<open>maybeConvertStreamError\<close> maps nil to nil; an error
  that is or wraps a \<open>quic.StreamError\<close> whose code the decoder accepts becomes a
  \<open>StreamError\<close> with the decoded code; one whose code the decoder rejects becomes a
  new error that records the numeric code and wraps the decoder's error; every other
  error is returned as it is.
\<close>

theorem convert_stream_error:
  "maybeConvertStreamError decode None = None
   \<and> (errors_As_StreamError e1 = Some code1 \<and> decode code1 = Inr errorCode \<longrightarrow>
        maybeConvertStreamError decode (Some e1) = Some (WTStreamError errorCode))
   \<and> (errors_As_StreamError e2 = Some code2 \<and> decode code2 = Inl cerr \<longrightarrow>
        maybeConvertStreamError decode (Some e2) = Some (ConvertFailed code2 cerr)
        \<and> Unwrap (ConvertFailed code2 cerr) = Some cerr)
   \<and> (errors_As_StreamError e3 = None \<longrightarrow>
        maybeConvertStreamError decode (Some e3) = Some e3)"
  by (simp add: maybeConvertStreamError_def)

theorem convert_stream_error_witness:
  "errors_As_StreamError (WrapError ''read'' (QuicStreamError 0x52e4a40fa91e)) = Some 0x52e4a40fa91e
   \<and> httpCodeToWebtransportCode 0x52e4a40fa91e = Inr 0x41
   \<and> maybeConvertStreamError httpCodeToWebtransportCode
        (Some (WrapError ''read'' (QuicStreamError 0x52e4a40fa91e))) = Some (WTStreamError 0x41)
   \<and> errors_As_StreamError (QuicStreamError 0x52e4a40fa8f9) = Some 0x52e4a40fa8f9
   \<and> httpCodeToWebtransportCode 0x52e4a40fa8f9 = Inl MappingError
   \<and> maybeConvertStreamError httpCodeToWebtransportCode (Some (QuicStreamError 0x52e4a40fa8f9))
        = Some (ConvertFailed 0x52e4a40fa8f9 MappingError)
   \<and> errors_As_StreamError EOF = None
   \<and> maybeConvertStreamError httpCodeToWebtransportCode (Some EOF) = Some EOF"
  using convert_stream_error [of httpCodeToWebtransportCode
          "WrapError ''read'' (QuicStreamError 0x52e4a40fa91e)" "0x52e4a40fa91e" "0x41"
          "QuicStreamError 0x52e4a40fa8f9" "0x52e4a40fa8f9" MappingError EOF]
  by (simp add: decode_gap decode_41)

section \<open>Properties of the stream openers\<close>

lemma varint_frame_type: "quicvarint_Write webTransportFrameType = Inr [0x40, 0x41]"
  by (simp add: quicvarint_Write_def webTransportFrameType_def)

lemma varint_stream_type: "quicvarint_Write webTransportStreamType = Inr [0x40, 0x54]"
  by (simp add: quicvarint_Write_def webTransportStreamType_def)

lemma writeStreamHeader_cases:
  "writeStreamHeader c str q =
     (case quicvarint_Write (sessionID c) of
        Inl f \<Rightarrow> (Panic f, q)
      | Inr v \<Rightarrow>
          (case write_err q str of
             Some err \<Rightarrow> (Fail err, q)
           | None \<Rightarrow> (Ok (), q\<lparr>written := written q @ [(str, [0x40, 0x41] @ v)]\<rparr>)))"
  by (simp add: writeStreamHeader_def varint_frame_type str_Write_def
           split: sum.splits option.splits)

lemma writeUniStreamHeader_cases:
  "writeUniStreamHeader c str q =
     (case quicvarint_Write (sessionID c) of
        Inl f \<Rightarrow> (Panic f, q)
      | Inr v \<Rightarrow>
          (case write_err q str of
             Some err \<Rightarrow> (Fail err, q)
           | None \<Rightarrow> (Ok (), q\<lparr>written := written q @ [(str, [0x40, 0x54] @ v)]\<rparr>)))"
  by (simp add: writeUniStreamHeader_def varint_stream_type str_Write_def
           split: sum.splits option.splits)

lemma OpenStream_Ok:
  assumes "OpenStream c q = (Ok a, q')"
  shows "a = newStream (next_stream q) \<and>
         (\<exists>v. quicvarint_Write (sessionID c) = Inr v \<and>
              written q' = written q @ [(next_stream q, [0x40, 0x41] @ v)])"
  using assms
  by (auto simp: OpenStream_def qconn_OpenStream_def writeStreamHeader_cases
           split: option.splits sum.splits)

lemma OpenUniStream_Ok:
  assumes "OpenUniStream c q = (Ok a, q')"
  shows "a = newSendStream (next_stream q) \<and>
         (\<exists>v. quicvarint_Write (sessionID c) = Inr v \<and>
              written q' = written q @ [(next_stream q, [0x40, 0x54] @ v)])"
  using assms
  by (auto simp: OpenUniStream_def qconn_OpenUniStream_def writeUniStreamHeader_cases
           split: option.splits sum.splits)

lemma OpenStream_write_fails:
  assumes "write_err q (next_stream q) = Some e"
  shows "fst (OpenStream c q) \<noteq> Ok a"
  using assms
  by (auto simp: OpenStream_def qconn_OpenStream_def writeStreamHeader_cases
           split: option.splits sum.splits)

lemma OpenUniStream_write_fails:
  assumes "write_err q (next_stream q) = Some e"
  shows "fst (OpenUniStream c q) \<noteq> Ok a"
  using assms
  by (auto simp: OpenUniStream_def qconn_OpenUniStream_def writeUniStreamHeader_cases
           split: option.splits sum.splits)

lemma varint_examples:
  "quicvarint_Write 37 = Inr [0x25]"
  "quicvarint_Write 15293 = Inr [0x7b, 0xbd]"
  "quicvarint_Write 494878333 = Inr [0x9d, 0x7f, 0x3e, 0x7d]"
  "quicvarint_Write 151288809941952652 = Inr [0xc2, 0x19, 0x7c, 0x5e, 0xff, 0x14, 0xe8, 0x8c]"
  "quicvarint_Read [0x25] = Inr 37"
  "quicvarint_Read [0x7b, 0xbd] = Inr 15293"
  "quicvarint_Read [0x9d, 0x7f, 0x3e, 0x7d] = Inr 494878333"
  "quicvarint_Read [0xc2, 0x19, 0x7c, 0x5e, 0xff, 0x14, 0xe8, 0x8c] = Inr 151288809941952652"
  by (simp_all add: quicvarint_Write_def quicvarint_Read_def)

lemma OpenStream_write_error:
  assumes "open_err q = None" and "write_err q (next_stream q) = Some e"
    and "quicvarint_Write (sessionID c) = Inr v"
  shows "fst (OpenStream c q) = Fail e"
  using assms
  by (simp add: OpenStream_def qconn_OpenStream_def writeStreamHeader_cases)

lemma OpenUniStream_write_error:
  assumes "open_uni_err q = None" and "write_err q (next_stream q) = Some e"
    and "quicvarint_Write (sessionID c) = Inr v"
  shows "fst (OpenUniStream c q) = Fail e"
  using assms
  by (simp add: OpenUniStream_def qconn_OpenUniStream_def writeUniStreamHeader_cases)

text \<open>
  Claim C8. When \<open>OpenStream\<close> succeeds, the adapter wraps the stream just opened and
  exactly one write was issued, on that stream, of the bytes \<open>0x40 0x41\<close> (the varint
  of \<open>0x41\<close>) followed by the varint of the session id; likewise \<open>OpenUniStream\<close>
  with \<open>0x40 0x54\<close>. When the write on the new stream fails, neither call returns
  an adapter, and both return the write's error.
\<close>

theorem open_writes_header:
  "(OpenStream c1 q1 = (Ok a1, q1') \<longrightarrow>
      a1 = newStream (next_stream q1) \<and>
      (\<exists>v. quicvarint_Write (sessionID c1) = Inr v \<and>
           written q1' = written q1 @ [(next_stream q1, [0x40, 0x41] @ v)]))
   \<and> (OpenUniStream c2 q2 = (Ok a2, q2') \<longrightarrow>
      a2 = newSendStream (next_stream q2) \<and>
      (\<exists>v. quicvarint_Write (sessionID c2) = Inr v \<and>
           written q2' = written q2 @ [(next_stream q2, [0x40, 0x54] @ v)]))
   \<and> (write_err q3 (next_stream q3) = Some e3 \<longrightarrow>
      fst (OpenStream c3 q3) \<noteq> Ok a3 \<and> fst (OpenUniStream c3 q3) \<noteq> Ok a3)
   \<and> (write_err q4 (next_stream q4) = Some e4 \<and> open_err q4 = None \<and> open_uni_err q4 = None
        \<and> quicvarint_Write (sessionID c4) = Inr v4 \<longrightarrow>
      fst (OpenStream c4 q4) = Fail e4 \<and> fst (OpenUniStream c4 q4) = Fail e4)
   \<and> quicvarint_Write webTransportFrameType = Inr [0x40, 0x41]
   \<and> quicvarint_Write webTransportStreamType = Inr [0x40, 0x54]"
  using OpenStream_Ok [of c1 q1 a1 q1'] OpenUniStream_Ok [of c2 q2 a2 q2']
    OpenStream_write_fails [of q3 e3 c3 a3] OpenUniStream_write_fails [of q3 e3 c3 a3]
    OpenStream_write_error [of q4 e4 c4 v4] OpenUniStream_write_error [of q4 e4 c4 v4]
    varint_frame_type varint_stream_type
  by blast

lemma OpenStream_example:
  "OpenStream (newConn False 4 1)
     \<lparr>open_err = None, open_uni_err = None, next_stream = 8, write_err = (\<lambda>s. None), written = []\<rparr>
   = (Ok (newStream 8),
      \<lparr>open_err = None, open_uni_err = None, next_stream = 9, write_err = (\<lambda>s. None),
       written = [(8, [0x40, 0x41, 0x04])]\<rparr>)"
  by (simp add: OpenStream_def qconn_OpenStream_def writeStreamHeader_cases newConn_def
        quicvarint_Write_def)

lemma OpenUniStream_example:
  "OpenUniStream (newConn False 4 1)
     \<lparr>open_err = None, open_uni_err = None, next_stream = 8, write_err = (\<lambda>s. None), written = []\<rparr>
   = (Ok (newSendStream 8),
      \<lparr>open_err = None, open_uni_err = None, next_stream = 9, write_err = (\<lambda>s. None),
       written = [(8, [0x40, 0x54, 0x04])]\<rparr>)"
  by (simp add: OpenUniStream_def qconn_OpenUniStream_def writeUniStreamHeader_cases newConn_def
        quicvarint_Write_def)

theorem open_writes_header_witness:
  "OpenStream (newConn False 4 1)
     \<lparr>open_err = None, open_uni_err = None, next_stream = 8, write_err = (\<lambda>s. None), written = []\<rparr>
   = (Ok (newStream 8),
      \<lparr>open_err = None, open_uni_err = None, next_stream = 9, write_err = (\<lambda>s. None),
       written = [(8, [0x40, 0x41, 0x04])]\<rparr>)
   \<and> OpenUniStream (newConn False 4 1)
     \<lparr>open_err = None, open_uni_err = None, next_stream = 8, write_err = (\<lambda>s. None), written = []\<rparr>
   = (Ok (newSendStream 8),
      \<lparr>open_err = None, open_uni_err = None, next_stream = 9, write_err = (\<lambda>s. None),
       written = [(8, [0x40, 0x54, 0x04])]\<rparr>)
   \<and> quicvarint_Write (sessionID (newConn False 4 1)) = Inr [0x04]
   \<and> write_err \<lparr>open_err = None, open_uni_err = None, next_stream = 8,
                  write_err = (\<lambda>s. Some EOF), written = []\<rparr> 8 = Some EOF
   \<and> fst (OpenStream (newConn False 4 1)
             \<lparr>open_err = None, open_uni_err = None, next_stream = 8,
              write_err = (\<lambda>s. Some EOF), written = []\<rparr>) = Fail EOF
   \<and> fst (OpenUniStream (newConn False 4 1)
             \<lparr>open_err = None, open_uni_err = None, next_stream = 8,
              write_err = (\<lambda>s. Some EOF), written = []\<rparr>) = Fail EOF"
  using open_writes_header [of "newConn False 4 1"
      "\<lparr>open_err = None, open_uni_err = None, next_stream = 8, write_err = (\<lambda>s. None), written = []\<rparr>"
      "newStream 8"
      "\<lparr>open_err = None, open_uni_err = None, next_stream = 9, write_err = (\<lambda>s. None),
        written = [(8, [0x40, 0x41, 0x04])]\<rparr>"
      "newConn False 4 1"
      "\<lparr>open_err = None, open_uni_err = None, next_stream = 8, write_err = (\<lambda>s. None), written = []\<rparr>"
      "newSendStream 8"
      "\<lparr>open_err = None, open_uni_err = None, next_stream = 9, write_err = (\<lambda>s. None),
        written = [(8, [0x40, 0x54, 0x04])]\<rparr>"
      "\<lparr>open_err = None, open_uni_err = None, next_stream = 8,
        write_err = (\<lambda>s. Some EOF), written = []\<rparr>" EOF
      "newConn False 4 1" "newStream 8"
      "\<lparr>open_err = None, open_uni_err = None, next_stream = 8,
        write_err = (\<lambda>s. Some EOF), written = []\<rparr>" EOF
      "newConn False 4 1" "[0x04]"]
    OpenStream_example OpenUniStream_example
  by (simp add: newConn_def quicvarint_Write_def)

section \<open>Properties of the accept queues\<close>

lemma AcceptStream_head:
  "acceptQueue c = str # rest \<Longrightarrow>
     AcceptStream c caller_done picks = (Ok (newStream str), c\<lparr>acceptQueue := rest\<rparr>)"
  by (subst AcceptStream.simps) simp

lemma AcceptUniStream_head:
  "acceptUniQueue c = str # rest \<Longrightarrow>
     AcceptUniStream c caller_done picks = (Ok (newReceiveStream str), c\<lparr>acceptUniQueue := rest\<rparr>)"
  by (subst AcceptUniStream.simps) simp

lemma AcceptStream_empty:
  "acceptQueue c = [] \<Longrightarrow> AcceptStream c caller_done picks = (r, c') \<Longrightarrow>
     (\<forall>a. r \<noteq> Ok a) \<and> acceptQueue c' = [] \<and> acceptUniQueue c' = acceptUniQueue c
     \<and> rcvDatagramQueue c' = rcvDatagramQueue c"
proof (induction c caller_done picks arbitrary: r c' rule: AcceptStream.induct)
  case (1 c caller_done picks)
  show ?case
  proof (cases "select_ready (accept_ready (ctx_done c) caller_done (acceptChan c)) (next_pick picks)")
    case None
    with "1.prems" show ?thesis by (subst (asm) AcceptStream.simps) auto
  next
    case (Some x)
    show ?thesis
    proof (cases x)
      case SessionDone
      with Some "1.prems" show ?thesis by (subst (asm) AcceptStream.simps) auto
    next
      case CallerDone
      with Some "1.prems" show ?thesis by (subst (asm) AcceptStream.simps) auto
    next
      case ChanReady
      with Some "1.prems" have rec:
        "AcceptStream (c\<lparr>acceptChan := False\<rparr>) caller_done (tl picks) = (r, c')"
        by (subst (asm) AcceptStream.simps) simp
      have emp: "acceptQueue (c\<lparr>acceptChan := False\<rparr>) = []" using "1.prems" by simp
      from "1.IH" [OF "1.prems"(1) Some ChanReady emp rec] show ?thesis by simp
    qed
  qed
qed

lemma AcceptUniStream_empty:
  "acceptUniQueue c = [] \<Longrightarrow> AcceptUniStream c caller_done picks = (r, c') \<Longrightarrow>
     (\<forall>a. r \<noteq> Ok a) \<and> acceptUniQueue c' = [] \<and> acceptQueue c' = acceptQueue c
     \<and> rcvDatagramQueue c' = rcvDatagramQueue c"
proof (induction c caller_done picks arbitrary: r c' rule: AcceptUniStream.induct)
  case (1 c caller_done picks)
  show ?case
  proof (cases "select_ready (accept_ready (ctx_done c) caller_done (acceptUniChan c)) (next_pick picks)")
    case None
    with "1.prems" show ?thesis by (subst (asm) AcceptUniStream.simps) auto
  next
    case (Some x)
    show ?thesis
    proof (cases x)
      case SessionDone
      with Some "1.prems" show ?thesis by (subst (asm) AcceptUniStream.simps) auto
    next
      case CallerDone
      with Some "1.prems" show ?thesis by (subst (asm) AcceptUniStream.simps) auto
    next
      case ChanReady
      with Some "1.prems" have rec:
        "AcceptUniStream (c\<lparr>acceptUniChan := False\<rparr>) caller_done (tl picks) = (r, c')"
        by (subst (asm) AcceptUniStream.simps) simp
      have emp: "acceptUniQueue (c\<lparr>acceptUniChan := False\<rparr>) = []" using "1.prems" by simp
      from "1.IH" [OF "1.prems"(1) Some ChanReady emp rec] show ?thesis by simp
    qed
  qed
qed

text \<open>
  Claim C10. A call of \<open>AcceptStream\<close> or \<open>AcceptUniStream\<close> made while the queue is
  not empty returns the head of the queue, whatever the two contexts say; and a call
  that returns an error found the queue empty.
\<close>

theorem accept_before_cancel:
  "(acceptQueue c1 = str1 # rest1 \<longrightarrow>
      AcceptStream c1 caller_done1 picks1 = (Ok (newStream str1), c1\<lparr>acceptQueue := rest1\<rparr>))
   \<and> (acceptUniQueue c2 = str2 # rest2 \<longrightarrow>
      AcceptUniStream c2 caller_done2 picks2
        = (Ok (newReceiveStream str2), c2\<lparr>acceptUniQueue := rest2\<rparr>))
   \<and> (AcceptStream c3 caller_done3 picks3 = (Fail err3, c3') \<longrightarrow> acceptQueue c3 = [])
   \<and> (AcceptUniStream c4 caller_done4 picks4 = (Fail err4, c4') \<longrightarrow> acceptUniQueue c4 = [])"
proof (intro conjI impI)
  assume "acceptQueue c1 = str1 # rest1"
  then show "AcceptStream c1 caller_done1 picks1 = (Ok (newStream str1), c1\<lparr>acceptQueue := rest1\<rparr>)"
    by (rule AcceptStream_head)
next
  assume "acceptUniQueue c2 = str2 # rest2"
  then show "AcceptUniStream c2 caller_done2 picks2
        = (Ok (newReceiveStream str2), c2\<lparr>acceptUniQueue := rest2\<rparr>)"
    by (rule AcceptUniStream_head)
next
  assume a: "AcceptStream c3 caller_done3 picks3 = (Fail err3, c3')"
  show "acceptQueue c3 = []"
  proof (cases "acceptQueue c3")
    case Nil then show ?thesis .
  next
    case (Cons s r)
    from AcceptStream_head [OF Cons, of caller_done3 picks3] a show ?thesis by simp
  qed
next
  assume a: "AcceptUniStream c4 caller_done4 picks4 = (Fail err4, c4')"
  show "acceptUniQueue c4 = []"
  proof (cases "acceptUniQueue c4")
    case Nil then show ?thesis .
  next
    case (Cons s r)
    from AcceptUniStream_head [OF Cons, of caller_done4 picks4] a show ?thesis by simp
  qed
qed

lemma AcceptStream_closed_empty:
  "AcceptStream (newConn True sid q) False [] = (Fail (ContextErr SessionCtx), newConn True sid q)"
  by (subst AcceptStream.simps) (simp add: newConn_def select_ready_def accept_ready_def)

lemma AcceptUniStream_closed_empty:
  "AcceptUniStream (newConn True sid q) False [] = (Fail (ContextErr SessionCtx), newConn True sid q)"
  by (subst AcceptUniStream.simps) (simp add: newConn_def select_ready_def accept_ready_def)

theorem accept_before_cancel_witness:
  "acceptQueue ((newConn True 4 1)\<lparr>acceptQueue := [5, 6]\<rparr>) = 5 # [6]
   \<and> AcceptStream ((newConn True 4 1)\<lparr>acceptQueue := [5, 6]\<rparr>) True []
       = (Ok (newStream 5), (newConn True 4 1)\<lparr>acceptQueue := [6]\<rparr>)
   \<and> acceptUniQueue ((newConn True 4 1)\<lparr>acceptUniQueue := [7]\<rparr>) = 7 # []
   \<and> AcceptUniStream ((newConn True 4 1)\<lparr>acceptUniQueue := [7]\<rparr>) True []
       = (Ok (newReceiveStream 7), (newConn True 4 1)\<lparr>acceptUniQueue := []\<rparr>)
   \<and> AcceptStream (newConn True 4 1) False [] = (Fail (ContextErr SessionCtx), newConn True 4 1)
   \<and> acceptQueue (newConn True 4 1) = []
   \<and> AcceptUniStream (newConn True 4 1) False [] = (Fail (ContextErr SessionCtx), newConn True 4 1)
   \<and> acceptUniQueue (newConn True 4 1) = []"
  using accept_before_cancel [of "(newConn True 4 1)\<lparr>acceptQueue := [5, 6]\<rparr>" 5 "[6]" True "[]"
          "(newConn True 4 1)\<lparr>acceptUniQueue := [7]\<rparr>" 7 "[]" True "[]"
          "newConn True 4 1" False "[]" "ContextErr SessionCtx" "newConn True 4 1"
          "newConn True 4 1" False "[]" "ContextErr SessionCtx" "newConn True 4 1"]
        AcceptStream_closed_empty [of 4 1] AcceptUniStream_closed_empty [of 4 1]
  by (simp add: newConn_def)

lemma AcceptStream_cases:
  assumes "AcceptStream c caller_done picks = (r, c')"
  obtains (taken) str rest where "acceptQueue c = str # rest" "r = Ok (newStream str)"
      "c' = c\<lparr>acceptQueue := rest\<rparr>"
  | (none) "acceptQueue c = []" "\<forall>a. r \<noteq> Ok a" "acceptQueue c' = []"
      "acceptUniQueue c' = acceptUniQueue c" "rcvDatagramQueue c' = rcvDatagramQueue c"
proof (cases "acceptQueue c")
  case Nil
  with AcceptStream_empty [OF Nil assms] none show ?thesis by blast
next
  case (Cons str rest)
  with AcceptStream_head [OF Cons, of caller_done picks] assms taken show ?thesis by simp
qed

lemma AcceptUniStream_cases:
  assumes "AcceptUniStream c caller_done picks = (r, c')"
  obtains (taken) str rest where "acceptUniQueue c = str # rest" "r = Ok (newReceiveStream str)"
      "c' = c\<lparr>acceptUniQueue := rest\<rparr>"
  | (none) "acceptUniQueue c = []" "\<forall>a. r \<noteq> Ok a" "acceptUniQueue c' = []"
      "acceptQueue c' = acceptQueue c" "rcvDatagramQueue c' = rcvDatagramQueue c"
proof (cases "acceptUniQueue c")
  case Nil
  with AcceptUniStream_empty [OF Nil assms] none show ?thesis by blast
next
  case (Cons str rest)
  with AcceptUniStream_head [OF Cons, of caller_done picks] assms taken show ?thesis by simp
qed

lemma ReceiveMessage_cases:
  assumes "ReceiveMessage c pick = (r, c')"
  obtains (taken) data rest where "rcvDatagramQueue c = data # rest" "r = Ok data"
      "c' = c\<lparr>rcvDatagramQueue := rest\<rparr>"
  | (none) "\<forall>d. r \<noteq> Ok d" "c' = c"
proof (cases "select_ready
             ((case rcvDatagramQueue c of [] \<Rightarrow> [] | data # rest \<Rightarrow> [DataReady data rest]) @
              (if ctx_done c then [ConnDone] else [])) pick")
  case None
  with assms none show ?thesis by (auto simp: ReceiveMessage_def)
next
  case (Some x)
  show ?thesis
  proof (cases x)
    case ConnDone
    with Some assms none show ?thesis by (auto simp: ReceiveMessage_def)
  next
    case (DataReady data rest)
    let ?ready = "(case rcvDatagramQueue c of [] \<Rightarrow> [] | data # rest \<Rightarrow> [DataReady data rest]) @
              (if ctx_done c then [ConnDone] else [])"
    from Some have ne: "?ready \<noteq> []" and at: "?ready ! (pick mod length ?ready) = x"
      by (auto simp: select_ready_def split: if_splits)
    have "pick mod length ?ready < length ?ready" using ne by simp
    then have "x \<in> set ?ready" using at by (metis nth_mem)
    with DataReady have "rcvDatagramQueue c = data # rest"
      by (auto split: list.splits if_splits)
    moreover from Some DataReady assms have "r = Ok data" "c' = c\<lparr>rcvDatagramQueue := rest\<rparr>"
      by (auto simp: ReceiveMessage_def)
    ultimately show ?thesis using taken by blast
  qed
qed




section \<open>Properties of the datagram queue\<close>

lemma Conn_handleDatagram_full:
  "rcvDatagramQueueCap \<le> length (rcvDatagramQueue c) \<Longrightarrow>
     Conn_handleDatagram c data = c\<lparr>logged := logged c @ [length data]\<rparr>"
  by (simp add: Conn_handleDatagram_def)

lemma Conn_handleDatagram_room:
  "length (rcvDatagramQueue c) < rcvDatagramQueueCap \<Longrightarrow>
     Conn_handleDatagram c data = c\<lparr>rcvDatagramQueue := rcvDatagramQueue c @ [data]\<rparr>"
  by (simp add: Conn_handleDatagram_def)

lemma conn_step_datagrams:
  assumes "length (rcvDatagramQueue c) \<le> rcvDatagramQueueCap"
    and "received t @ rcvDatagramQueue c = enqueued t"
    and "subseq (enqueued t) (arrived t)"
    and "conn_step x (c, t) = (c', t')"
  shows "length (rcvDatagramQueue c') \<le> rcvDatagramQueueCap \<and>
         received t' @ rcvDatagramQueue c' = enqueued t' \<and>
         subseq (enqueued t') (arrived t')"
proof (cases x)
  case (AddStreamOp str)
  with assms show ?thesis by (auto simp: addStream_def)
next
  case (AddUniStreamOp str)
  with assms show ?thesis by (auto simp: addUniStream_def)
next
  case (AcceptStreamOp caller_done picks)
  obtain r c1 where a: "AcceptStream c caller_done picks = (r, c1)"
    by (cases "AcceptStream c caller_done picks")
  from a show ?thesis
  proof (cases rule: AcceptStream_cases)
    case (taken str rest)
    with a AcceptStreamOp assms show ?thesis by auto
  next
    case none
    with a AcceptStreamOp assms show ?thesis by (cases r) auto
  qed
next
  case (AcceptUniStreamOp caller_done picks)
  obtain r c1 where a: "AcceptUniStream c caller_done picks = (r, c1)"
    by (cases "AcceptUniStream c caller_done picks")
  from a show ?thesis
  proof (cases rule: AcceptUniStream_cases)
    case (taken str rest)
    with a AcceptUniStreamOp assms show ?thesis by auto
  next
    case none
    with a AcceptUniStreamOp assms show ?thesis by (cases r) auto
  qed
next
  case (DatagramOp data)
  show ?thesis
  proof (cases "length (rcvDatagramQueue c) < rcvDatagramQueueCap")
    case True
    from assms(3) have "subseq (enqueued t @ [data]) (arrived t @ [data])"
      by (simp add: list_emb_append_mono)
    with True DatagramOp assms show ?thesis
      by (auto simp: Conn_handleDatagram_room Let_def)
  next
    case False
    from assms(3) have "subseq (enqueued t) (arrived t @ [data])"
      by (rule list_emb_prefix)
    with False DatagramOp assms show ?thesis
      by (auto simp: Conn_handleDatagram_full Let_def)
  qed
next
  case (ReceiveMessageOp pick)
  obtain r c1 where a: "ReceiveMessage c pick = (r, c1)" by (cases "ReceiveMessage c pick")
  from a show ?thesis
  proof (cases rule: ReceiveMessage_cases)
    case (taken data rest)
    with a ReceiveMessageOp assms show ?thesis by auto
  next
    case none
    with a ReceiveMessageOp assms show ?thesis by (cases r) auto
  qed
next
  case CloseOp
  with assms show ?thesis by (auto simp: Close_def)
qed

lemma conn_run_datagrams:
  assumes "length (rcvDatagramQueue c) \<le> rcvDatagramQueueCap"
    and "received t @ rcvDatagramQueue c = enqueued t"
    and "subseq (enqueued t) (arrived t)"
    and "conn_run ops (c, t) = (c', t')"
  shows "length (rcvDatagramQueue c') \<le> rcvDatagramQueueCap \<and>
         received t' @ rcvDatagramQueue c' = enqueued t' \<and>
         subseq (enqueued t') (arrived t')"
  using assms
proof (induction ops arbitrary: c t)
  case Nil
  then show ?case by simp
next
  case (Cons x xs)
  obtain c1 t1 where s: "conn_step x (c, t) = (c1, t1)" by (cases "conn_step x (c, t)")
  from conn_step_datagrams [OF Cons.prems(1,2,3) s]
  have "length (rcvDatagramQueue c1) \<le> rcvDatagramQueueCap"
    and "received t1 @ rcvDatagramQueue c1 = enqueued t1"
    and "subseq (enqueued t1) (arrived t1)" by simp_all
  moreover from Cons.prems(4) s have "conn_run xs (c1, t1) = (c', t')" by simp
  ultimately show ?case by (rule Cons.IH)
qed

lemma ReceiveMessage_open_head:
  "rcvDatagramQueue c = data # rest \<Longrightarrow> \<not> ctx_done c \<Longrightarrow>
     ReceiveMessage c pick = (Ok data, c\<lparr>rcvDatagramQueue := rest\<rparr>)"
  by (simp add: ReceiveMessage_def select_ready_def)

lemma ReceiveMessage_open_empty:
  "rcvDatagramQueue c = [] \<Longrightarrow> \<not> ctx_done c \<Longrightarrow> ReceiveMessage c pick = (Blocked, c)"
  by (simp add: ReceiveMessage_def select_ready_def)

lemma ReceiveMessage_closed_head:
  "rcvDatagramQueue c = data # rest \<Longrightarrow> ctx_done c \<Longrightarrow>
     ReceiveMessage c pick =
       (if pick mod 2 = 0 then (Ok data, c\<lparr>rcvDatagramQueue := rest\<rparr>)
        else (Fail (ErrorString ''conn closed''), c))"
proof -
  assume a: "rcvDatagramQueue c = data # rest" "ctx_done c"
  have "pick mod Suc (Suc 0) = 0 \<or> pick mod Suc (Suc 0) = Suc 0" by presburger
  then show ?thesis
  proof
    assume "pick mod Suc (Suc 0) = 0"
    with a show ?thesis by (simp add: ReceiveMessage_def select_ready_def numeral_2_eq_2)
  next
    assume "pick mod Suc (Suc 0) = Suc 0"
    with a show ?thesis by (simp add: ReceiveMessage_def select_ready_def numeral_2_eq_2)
  qed
qed

lemma ReceiveMessage_closed_empty:
  "rcvDatagramQueue c = [] \<Longrightarrow> ctx_done c \<Longrightarrow>
     ReceiveMessage c pick = (Fail (ErrorString ''conn closed''), c)"
  by (simp add: ReceiveMessage_def select_ready_def)

lemma ReceiveMessage_Ok:
  assumes "ReceiveMessage c pick = (Ok d, c')"
  shows "\<exists>rest. rcvDatagramQueue c = d # rest \<and> c' = c\<lparr>rcvDatagramQueue := rest\<rparr>"
  using assms by (cases rule: ReceiveMessage_cases) auto

lemma conn_run_append: "conn_run (xs @ ys) s = conn_run ys (conn_run xs s)"
  by (induction xs arbitrary: s) simp_all

lemma run_arrivals:
  assumes "length (rcvDatagramQueue c) \<le> 128"
  shows "\<exists>c' t'. conn_run (map DatagramOp ds) (c, t) = (c', t') \<and>
           rcvDatagramQueue c' = take 128 (rcvDatagramQueue c @ ds) \<and>
           received t' = received t \<and> ctx_done c' = ctx_done c"
  using assms
proof (induction ds arbitrary: c t)
  case Nil
  then show ?case by simp
next
  case (Cons d ds)
  let ?c1 = "Conn_handleDatagram c d"
  obtain t1 where s: "conn_step (DatagramOp d) (c, t) = (?c1, t1)" and r: "received t1 = received t"
    by (simp add: Let_def)
  have step: "conn_run (map DatagramOp (d # ds)) (c, t) = conn_run (map DatagramOp ds) (?c1, t1)"
    using s by (simp only: list.map conn_run.simps)
  have q: "rcvDatagramQueue ?c1 = take 128 (rcvDatagramQueue c @ [d])"
    and cd: "ctx_done ?c1 = ctx_done c"
    using Cons.prems by (simp_all add: Conn_handleDatagram_def rcvDatagramQueueCap_def)
  then have "length (rcvDatagramQueue ?c1) \<le> 128" by simp
  from Cons.IH [OF this, of t1] obtain c' t' where
    run: "conn_run (map DatagramOp ds) (?c1, t1) = (c', t')"
    and q': "rcvDatagramQueue c' = take 128 (rcvDatagramQueue ?c1 @ ds)"
    and r': "received t' = received t1" and cd': "ctx_done c' = ctx_done ?c1"
    by blast
  have "take 128 (take 128 (rcvDatagramQueue c @ [d]) @ ds)
          = take 128 (rcvDatagramQueue c @ d # ds)"
    using Cons.prems by (cases "length (rcvDatagramQueue c) < 128") simp_all
  with q q' have "rcvDatagramQueue c' = take 128 (rcvDatagramQueue c @ d # ds)" by simp
  with step run r r' cd cd' show ?case by simp
qed

lemma run_receives:
  assumes "\<not> ctx_done c"
  shows "\<exists>c' t'. conn_run (map ReceiveMessageOp picks) (c, t) = (c', t') \<and>
           received t' = received t @ take (length picks) (rcvDatagramQueue c) \<and>
           rcvDatagramQueue c' = drop (length picks) (rcvDatagramQueue c)"
  using assms
proof (induction picks arbitrary: c t)
  case Nil
  then show ?case by simp
next
  case (Cons p ps)
  show ?case
  proof (cases "rcvDatagramQueue c")
    case Nil
    with Cons.prems have "conn_step (ReceiveMessageOp p) (c, t) = (c, t)"
      by (simp add: ReceiveMessage_open_empty)
    with Cons.IH [OF Cons.prems, of t] Nil show ?thesis by simp
  next
    case (Cons d rest)
    with Cons.prems have s: "conn_step (ReceiveMessageOp p) (c, t)
        = (c\<lparr>rcvDatagramQueue := rest\<rparr>, t\<lparr>received := received t @ [d]\<rparr>)"
      by (simp add: ReceiveMessage_open_head)
    have "\<not> ctx_done (c\<lparr>rcvDatagramQueue := rest\<rparr>)" using Cons.prems by simp
    from Cons.IH [OF this, of "t\<lparr>received := received t @ [d]\<rparr>"] s Cons show ?thesis by simp
  qed
qed

lemma burst_then_drain:
  "\<exists>c t. conn_run (map DatagramOp ds @ map ReceiveMessageOp picks)
             (newConn False sid q, nothing_observed) = (c, t) \<and>
         received t = take (length picks) (take 128 ds) \<and>
         rcvDatagramQueue c = drop (length picks) (take 128 ds)"
proof -
  have "length (rcvDatagramQueue (newConn False sid q)) \<le> 128" by (simp add: newConn_def)
  from run_arrivals [OF this, of ds nothing_observed]
  obtain c1 t1 where a: "conn_run (map DatagramOp ds) (newConn False sid q, nothing_observed) = (c1, t1)"
    and q1: "rcvDatagramQueue c1 = take 128 ds" and r1: "received t1 = []" and d1: "\<not> ctx_done c1"
    by (auto simp: newConn_def nothing_observed_def)
  from run_receives [OF d1, of picks t1] a q1 r1 show ?thesis
    by (simp add: conn_run_append)
qed

text \<open>
  Claim C5. After any run of a session the datagram queue holds at most 128 entries,
  the datagrams \<open>ReceiveMessage\<close> returned followed by those still queued are the
  enqueued arrivals in arrival order, and these are a subsequence of all arrivals. A
  datagram that arrives when the queue is full is logged and changes nothing else; one
  that arrives when there is room goes to the back of the queue. \<open>ReceiveMessage\<close> on
  a queue that is not empty returns its head and removes it, always while the session
  is open and, once it is closed, whenever the \<open>select\<close> picks the queue; and every
  datagram it returns was the head of the queue. So when a burst of datagrams arrives
  at a new open session and the application then receives, it gets the first 128 of
  the burst, in order, one for each call.
\<close>

theorem datagram_queue_policy:
  "(case conn_run ops (newConn parent_done sid q, nothing_observed) of
      (c, t) \<Rightarrow>
        length (rcvDatagramQueue c) \<le> 128 \<and>
        received t @ rcvDatagramQueue c = enqueued t \<and>
        subseq (enqueued t) (arrived t))
   \<and> (128 \<le> length (rcvDatagramQueue c0) \<longrightarrow>
        Conn_handleDatagram c0 data0 = c0\<lparr>logged := logged c0 @ [length data0]\<rparr>)
   \<and> (length (rcvDatagramQueue c1) < 128 \<longrightarrow>
        Conn_handleDatagram c1 data1 = c1\<lparr>rcvDatagramQueue := rcvDatagramQueue c1 @ [data1]\<rparr>)
   \<and> (rcvDatagramQueue c2 = data2 # rest2 \<and> \<not> ctx_done c2 \<longrightarrow>
        ReceiveMessage c2 pick2 = (Ok data2, c2\<lparr>rcvDatagramQueue := rest2\<rparr>))
   \<and> (rcvDatagramQueue c3 = data3 # rest3 \<and> ctx_done c3 \<longrightarrow>
        ReceiveMessage c3 pick3 =
          (if pick3 mod 2 = 0 then (Ok data3, c3\<lparr>rcvDatagramQueue := rest3\<rparr>)
           else (Fail (ErrorString ''conn closed''), c3)))
   \<and> (ReceiveMessage c4 pick4 = (Ok data4, c4') \<longrightarrow>
        (\<exists>rest. rcvDatagramQueue c4 = data4 # rest \<and> c4' = c4\<lparr>rcvDatagramQueue := rest\<rparr>))
   \<and> (case conn_run (map DatagramOp ds @ map ReceiveMessageOp picks)
              (newConn False sid5 q5, nothing_observed) of
        (c, t) \<Rightarrow>
          received t = take (length picks) (take 128 ds) \<and>
          rcvDatagramQueue c = drop (length picks) (take 128 ds))"
proof (intro conjI)
  obtain c t where r: "conn_run ops (newConn parent_done sid q, nothing_observed) = (c, t)"
    by (cases "conn_run ops (newConn parent_done sid q, nothing_observed)")
  have "length (rcvDatagramQueue (newConn parent_done sid q)) \<le> rcvDatagramQueueCap"
    and "received nothing_observed @ rcvDatagramQueue (newConn parent_done sid q)
           = enqueued nothing_observed"
    and "subseq (enqueued nothing_observed) (arrived nothing_observed)"
    by (simp_all add: newConn_def nothing_observed_def)
  from conn_run_datagrams [OF this r] r
  show "case conn_run ops (newConn parent_done sid q, nothing_observed) of
      (c, t) \<Rightarrow>
        length (rcvDatagramQueue c) \<le> 128 \<and>
        received t @ rcvDatagramQueue c = enqueued t \<and>
        subseq (enqueued t) (arrived t)"
    by (simp add: rcvDatagramQueueCap_def)
next
  show "128 \<le> length (rcvDatagramQueue c0) \<longrightarrow>
        Conn_handleDatagram c0 data0 = c0\<lparr>logged := logged c0 @ [length data0]\<rparr>"
    by (simp add: Conn_handleDatagram_full rcvDatagramQueueCap_def)
next
  show "length (rcvDatagramQueue c1) < 128 \<longrightarrow>
        Conn_handleDatagram c1 data1 = c1\<lparr>rcvDatagramQueue := rcvDatagramQueue c1 @ [data1]\<rparr>"
    by (simp add: Conn_handleDatagram_room rcvDatagramQueueCap_def)
next
  show "rcvDatagramQueue c2 = data2 # rest2 \<and> \<not> ctx_done c2 \<longrightarrow>
        ReceiveMessage c2 pick2 = (Ok data2, c2\<lparr>rcvDatagramQueue := rest2\<rparr>)"
    using ReceiveMessage_open_head by blast
next
  show "rcvDatagramQueue c3 = data3 # rest3 \<and> ctx_done c3 \<longrightarrow>
        ReceiveMessage c3 pick3 =
          (if pick3 mod 2 = 0 then (Ok data3, c3\<lparr>rcvDatagramQueue := rest3\<rparr>)
           else (Fail (ErrorString ''conn closed''), c3))"
    using ReceiveMessage_closed_head by blast
next
  show "ReceiveMessage c4 pick4 = (Ok data4, c4') \<longrightarrow>
        (\<exists>rest. rcvDatagramQueue c4 = data4 # rest \<and> c4' = c4\<lparr>rcvDatagramQueue := rest\<rparr>)"
    using ReceiveMessage_Ok by blast
next
  from burst_then_drain [of ds picks sid5 q5]
  show "case conn_run (map DatagramOp ds @ map ReceiveMessageOp picks)
              (newConn False sid5 q5, nothing_observed) of
        (c, t) \<Rightarrow>
          received t = take (length picks) (take 128 ds) \<and>
          rcvDatagramQueue c = drop (length picks) (take 128 ds)"
    by auto
qed

lemma datagram_run_example:
  "conn_run [DatagramOp [0x61], DatagramOp [0x62], ReceiveMessageOp 0]
           (newConn False 4 1, nothing_observed)
   = ((newConn False 4 1)\<lparr>rcvDatagramQueue := [[0x62]]\<rparr>,
      nothing_observed\<lparr>arrived := [[0x61], [0x62]], enqueued := [[0x61], [0x62]],
                       received := [[0x61]]\<rparr>)"
  by (simp add: newConn_def nothing_observed_def Conn_handleDatagram_def rcvDatagramQueueCap_def
        ReceiveMessage_def select_ready_def Let_def)

theorem datagram_queue_policy_witness:
  "conn_run [DatagramOp [0x61], DatagramOp [0x62], ReceiveMessageOp 0]
           (newConn False 4 1, nothing_observed)
     = ((newConn False 4 1)\<lparr>rcvDatagramQueue := [[0x62]]\<rparr>,
        nothing_observed\<lparr>arrived := [[0x61], [0x62]], enqueued := [[0x61], [0x62]],
                         received := [[0x61]]\<rparr>)
   \<and> received (snd (conn_run (map DatagramOp [[0x61], [0x62]] @ map ReceiveMessageOp [0])
                        (newConn False 4 1, nothing_observed))) = [[0x61]]
   \<and> 128 \<le> length (rcvDatagramQueue ((newConn False 4 1)\<lparr>rcvDatagramQueue := replicate 128 [0x61]\<rparr>))
   \<and> Conn_handleDatagram ((newConn False 4 1)\<lparr>rcvDatagramQueue := replicate 128 [0x61]\<rparr>) [0x62, 0x63]
       = (newConn False 4 1)\<lparr>rcvDatagramQueue := replicate 128 [0x61], logged := [2]\<rparr>
   \<and> length (rcvDatagramQueue (newConn False 4 1)) < 128
   \<and> Conn_handleDatagram (newConn False 4 1) [0x62, 0x63]
       = (newConn False 4 1)\<lparr>rcvDatagramQueue := [[0x62, 0x63]]\<rparr>
   \<and> rcvDatagramQueue ((newConn False 4 1)\<lparr>rcvDatagramQueue := [[0x61], [0x62]]\<rparr>) = [0x61] # [[0x62]]
   \<and> \<not> ctx_done ((newConn False 4 1)\<lparr>rcvDatagramQueue := [[0x61], [0x62]]\<rparr>)
   \<and> ReceiveMessage ((newConn False 4 1)\<lparr>rcvDatagramQueue := [[0x61], [0x62]]\<rparr>) 0
       = (Ok [0x61], (newConn False 4 1)\<lparr>rcvDatagramQueue := [[0x62]]\<rparr>)
   \<and> ctx_done ((newConn True 4 1)\<lparr>rcvDatagramQueue := [[0x61], [0x62]]\<rparr>)
   \<and> ReceiveMessage ((newConn True 4 1)\<lparr>rcvDatagramQueue := [[0x61], [0x62]]\<rparr>) 1
       = (Fail (ErrorString ''conn closed''), (newConn True 4 1)\<lparr>rcvDatagramQueue := [[0x61], [0x62]]\<rparr>)
   \<and> ReceiveMessage ((newConn True 4 1)\<lparr>rcvDatagramQueue := [[0x61], [0x62]]\<rparr>) 2
       = (Ok [0x61], (newConn True 4 1)\<lparr>rcvDatagramQueue := [[0x62]]\<rparr>)"
proof -
  note th = datagram_queue_policy [where
      ops = "[DatagramOp [0x61], DatagramOp [0x62], ReceiveMessageOp 0]"
      and parent_done = False and sid = 4 and q = 1
      and ?c0.0 = "(newConn False 4 1)\<lparr>rcvDatagramQueue := replicate 128 [0x61]\<rparr>"
      and ?data0.0 = "[0x62, 0x63]"
      and ?c1.0 = "newConn False 4 1" and ?data1.0 = "[0x62, 0x63]"
      and ?c2.0 = "(newConn False 4 1)\<lparr>rcvDatagramQueue := [[0x61], [0x62]]\<rparr>"
      and ?data2.0 = "[0x61]" and ?rest2.0 = "[[0x62]]" and ?pick2.0 = 0
      and ?c3.0 = "(newConn True 4 1)\<lparr>rcvDatagramQueue := [[0x61], [0x62]]\<rparr>"
      and ?data3.0 = "[0x61]" and ?rest3.0 = "[[0x62]]" and ?pick3.0 = 1
      and ?c4.0 = "(newConn False 4 1)\<lparr>rcvDatagramQueue := [[0x61], [0x62]]\<rparr>"
      and ?pick4.0 = 0 and ?data4.0 = "[0x61]"
      and c4' = "(newConn False 4 1)\<lparr>rcvDatagramQueue := [[0x62]]\<rparr>"
      and ds = "[[0x61], [0x62]]" and picks = "[0]" and ?sid5.0 = 4 and ?q5.0 = 1]
  have two: "ReceiveMessage ((newConn True 4 1)\<lparr>rcvDatagramQueue := [[0x61], [0x62]]\<rparr>) 2
       = (Ok [0x61], (newConn True 4 1)\<lparr>rcvDatagramQueue := [[0x62]]\<rparr>)"
    by (simp add: ReceiveMessage_closed_head newConn_def)
  from th datagram_run_example two show ?thesis
    by (simp add: newConn_def split: prod.splits)
qed

section \<open>Properties of the session manager\<close>

lemma AddUniStream_fresh:
  "AddUniStream (newSessionManager t heap) q str sid =
     \<lparr>mctx_done = False, timeout = t, sessions = [(q, sid) \<mapsto> 0], conns = {},
        session_heap = (\<lambda>a. \<lparr>created = False, counter = 0, conn = None\<rparr>)
          (0 := \<lparr>created = False, counter = 1, conn = None\<rparr>),
        session_next = Suc 0, conn_heap = heap, tasks = [UniSpawned str 0 (q, sid)], pumps = [],
        stream_log = []\<rparr>"
  by (simp add: AddUniStream_def newSessionManager_def new_pending_session_def
        session_store_def Let_def)

lemma AddStream_fresh:
  "AddStream (newSessionManager t heap) q str sid =
     \<lparr>mctx_done = False, timeout = t, sessions = [(q, sid) \<mapsto> 0], conns = {},
        session_heap = (\<lambda>a. \<lparr>created = False, counter = 0, conn = None\<rparr>)
          (0 := \<lparr>created = False, counter = 1, conn = None\<rparr>),
        session_next = Suc 0, conn_heap = heap, tasks = [BidiParked str 0 (q, sid)], pumps = [],
        stream_log = []\<rparr>"
  by (simp add: AddStream_def newSessionManager_def new_pending_session_def
        session_store_def Let_def)

text \<open>
  Claim C9. There is an execution of \<open>handleUniStream\<close> with no session attached in
  which entering the \<open>select\<close> dereferences nil: a unidirectional stream arrives at an
  empty manager for a session not yet added, \<open>AddUniStream\<close> parks it, and the
  goroutine started for it panics when it evaluates \<open>session.conn.ctx\<close>, whatever would
  have woken it.
\<close>

theorem uni_parking_nil_dereference:
  "handleUniStream (AddUniStream (newSessionManager t heap) q str sid) str 0 (q, sid) w
     = Panic NilPointerDereference
   \<and> run [AddUniStreamCall q str sid, TaskStep 0 w] (newSessionManager t heap)
     = Panic NilPointerDereference"
  by (simp add: AddUniStream_fresh handleUniStream_def handleUniStream_enter_def task_step_def)

lemma handleStream_timeout:
  "handleStream m str sess key TimerFired = Ok m' \<Longrightarrow>
     stream_log m' = stream_log m @
        [(str, CancelRead 0x3994bd84), (str, CancelWrite 0x3994bd84)] \<and>
     sessions m' = (if counter (session_heap m sess) = 1 \<and> conn (session_heap m sess) = None
                    then (sessions m)(key := None) else sessions m)"
  by (auto simp: handleStream_def leave_session_def session_store_def Let_def
        WebTransportBufferedStreamRejectedErrorCode_def)

text \<open>
  Claim C3 at a bidirectional and at a unidirectional stream for session 99, which
  never appears. The timeout of the bidirectional stream cancels both sides with
  \<open>0x3994bd84\<close> and removes the entry. The goroutine of the unidirectional stream
  panics on entering its \<open>select\<close>: no \<open>CancelRead\<close> is issued and the run ends.
\<close>

theorem uni_timeout_panics:
  "(case handleStream (AddStream (newSessionManager t heap) 1 7 99) 7 0 (1, 99) TimerFired of
      Ok m' \<Rightarrow> stream_log m' = [(7, CancelRead 0x3994bd84), (7, CancelWrite 0x3994bd84)]
               \<and> sessions m' (1, 99) = None
    | _ \<Rightarrow> False)
   \<and> handleUniStream (AddUniStream (newSessionManager t heap) 1 7 99) 7 0 (1, 99) TimerFired
       = Panic NilPointerDereference
   \<and> run [AddUniStreamCall 1 7 99, TaskStep 0 TimerFired] (newSessionManager t heap)
       = Panic NilPointerDereference"
  by (simp add: AddUniStream_fresh AddStream_fresh handleUniStream_def handleUniStream_enter_def
        task_step_def handleStream_def leave_session_def session_store_def
        Let_def WebTransportBufferedStreamRejectedErrorCode_def)

lemma AddSession_fresh:
  "AddSession (newSessionManager t heap) q sid c =
     Ok \<lparr>mctx_done = False, timeout = t, sessions = [(q, sid) \<mapsto> 0], conns = {q},
        session_heap = (\<lambda>a. \<lparr>created = False, counter = 0, conn = None\<rparr>)
          (0 := \<lparr>created = True, counter = 0, conn = Some c\<rparr>),
        session_next = Suc 0, conn_heap = heap, tasks = [], pumps = [q],
        stream_log = []\<rparr>"
  by (simp add: AddSession_def newSessionManager_def Let_def)

text \<open>
  Claim C2 at a datagram for session 64. The peer's \<open>SendMessage\<close> puts the two-byte
  varint \<open>0x40 0x40\<close> in front of the payload \<open>0x61\<close>. The pump reads the session
  id 64 from it and hands \<open>data[1:]\<close> to the session: the queue receives
  \<open>0x40 0x61\<close>, the second byte of the varint followed by the payload.
\<close>

theorem pump_strips_one_byte:
  "SendMessage (newConn False 64 1) [0x61] = Inr [0x40, 0x40, 0x61]
   \<and> quicvarint_Read [0x40, 0x40, 0x61] = Inr 64
   \<and> (case AddSession (newSessionManager t (\<lambda>a. newConn False 64 1)) 1 64 0 of
        Ok m1 \<Rightarrow>
          (case sessionManager_handleDatagram m1 1 [Inr [0x40, 0x40, 0x61]] of
             Ok m2 \<Rightarrow> rcvDatagramQueue (conn_heap m2 0) = [[0x40, 0x61]]
           | _ \<Rightarrow> False)
      | _ \<Rightarrow> False)"
proof -
  have r: "quicvarint_Read [0x40, 0x40, 0x61] = Inr 64"
    by (simp add: quicvarint_Read_def)
  have s: "SendMessage (newConn False 64 1) [0x61] = Inr [0x40, 0x40, 0x61]"
    by (simp add: SendMessage_def newConn_def quicvarint_Write_def)
  from r s show ?thesis
    by (simp add: AddSession_fresh conn_store_def
          Conn_handleDatagram_def rcvDatagramQueueCap_def newConn_def)
qed

lemma pump_nil_conn:
  "sessionManager_handleDatagram (AddStream (newSessionManager t heap) 1 7 5) 1 [Inr [0x05, 0x61]]
     = Panic NilPointerDereference"
  by (simp add: AddStream_fresh quicvarint_Read_def)

lemma session_store_fields:
  "sessions (session_store m s f) = sessions m"
  "session_next (session_store m s f) = session_next m"
  "tasks (session_store m s f) = tasks m"
  "session_heap (session_store m s f) = (session_heap m)(s := f (session_heap m s))"
  by (simp_all add: session_store_def)

lemma conn_store_fields:
  "sessions (conn_store m c f) = sessions m"
  "session_next (conn_store m c f) = session_next m"
  "tasks (conn_store m c f) = tasks m"
  "session_heap (conn_store m c f) = session_heap m"
  by (simp_all add: conn_store_def)

lemma leave_session_fields:
  "session_next (leave_session m sess key) = session_next m"
  "tasks (leave_session m sess key) = tasks m"
  "session_heap (leave_session m sess key) =
     (session_heap m)(sess := (session_heap m sess)\<lparr>counter := counter (session_heap m sess) - 1\<rparr>)"
  "sessions (leave_session m sess key) =
     (if counter (session_heap m sess) = 1 \<and> conn (session_heap m sess) = None
      then (sessions m)(key := None) else sessions m)"
  by (simp_all add: leave_session_def session_store_def Let_def)

lemma manager_inv_core:
  "sessions m' = sessions m \<Longrightarrow> session_heap m' = session_heap m \<Longrightarrow>
   session_next m' = session_next m \<Longrightarrow> tasks m' = tasks m \<Longrightarrow>
   manager_inv m' = manager_inv m"
  by (simp add: manager_inv_def)

lemma waiting_append: "waiting (ts @ [t]) r = waiting ts r + (if task_session t = r then 1 else 0)"
  by (simp add: waiting_def)

lemma waiting_zero: "\<forall>t \<in> set ts. task_session t \<noteq> r \<Longrightarrow> waiting ts r = 0"
  by (simp add: waiting_def)

lemma waiting_pos: "t \<in> set ts \<Longrightarrow> task_session t = r \<Longrightarrow> 0 < waiting ts r"
  by (auto simp: waiting_def filter_empty_conv)

lemma waiting_drop:
  assumes "i < length ts"
  shows "waiting ts r = waiting (take i ts @ drop (Suc i) ts) r
           + (if task_session (ts ! i) = r then 1 else 0)"
proof -
  have "ts = take i ts @ ts ! i # drop (Suc i) ts"
    using assms by (rule id_take_nth_drop)
  then have "waiting ts r = waiting (take i ts @ ts ! i # drop (Suc i) ts) r" by simp
  then show ?thesis by (simp add: waiting_def)
qed

lemma waiting_update:
  assumes "i < length ts" and "task_session t' = task_session (ts ! i)"
  shows "waiting (ts[i := t']) r = waiting ts r"
proof -
  have "ts[i := t'] = take i ts @ t' # drop (Suc i) ts"
    using assms(1) by (rule upd_conv_take_nth_drop)
  then have "waiting (ts[i := t']) r = waiting (take i ts @ drop (Suc i) ts) r
      + (if task_session t' = r then 1 else 0)"
    by (simp add: waiting_def)
  with waiting_drop [OF assms(1), of r] assms(2) show ?thesis by simp
qed

lemma set_drop_nth: "t \<in> set (take i ts @ drop (Suc i) ts) \<Longrightarrow> t \<in> set ts"
  by (auto dest: in_set_takeD in_set_dropD)

lemma inv_empty: "manager_inv (newSessionManager t heap)"
  by (simp add: manager_inv_def newSessionManager_def)

lemma inv_park:
  assumes inv: "manager_inv m" and k: "task_key t = key" and s: "task_session t = sess"
    and look: "sessions m key = Some sess"
  shows "manager_inv
           ((session_store m sess (\<lambda>s. s\<lparr>counter := counter s + 1\<rparr>))\<lparr>tasks := tasks m @ [t]\<rparr>)"
  using assms unfolding manager_inv_def
  by (auto simp: session_store_fields waiting_append simp del: split_paired_All)

lemma inv_park_new:
  assumes inv: "manager_inv m" and k: "task_key t = key" and s: "task_session t = session_next m"
    and look: "sessions m key = None"
  shows "manager_inv
           ((session_store (new_pending_session m key) (session_next m)
               (\<lambda>s. s\<lparr>counter := counter s + 1\<rparr>))\<lparr>tasks := tasks m @ [t]\<rparr>)"
proof -
  have fresh: "\<forall>u \<in> set (tasks m). task_session u \<noteq> session_next m"
    using inv unfolding manager_inv_def by (metis less_irrefl)
  have w0: "waiting (tasks m) (session_next m) = 0"
    using fresh by (rule waiting_zero)
  have old: "\<And>k r. sessions m k = Some r \<Longrightarrow> r \<noteq> session_next m"
    using inv unfolding manager_inv_def by (metis less_irrefl)
  show ?thesis
    using inv k s look w0 old unfolding manager_inv_def
    by (auto simp: session_store_fields new_pending_session_def waiting_append less_Suc_eq
          simp del: split_paired_All)
qed


lemma inv_conn_store: "manager_inv (conn_store m c f) = manager_inv m"
  by (rule manager_inv_core) (simp_all add: conn_store_fields)

lemma inv_AddStream: "manager_inv m \<Longrightarrow> manager_inv (AddStream m q str sid)"
proof -
  assume inv: "manager_inv m"
  show ?thesis
  proof (cases "sessions m (q, sid)")
    case None
    from inv_park_new [OF inv _ _ None, of "BidiParked str (session_next m) (q, sid)"] None
    show ?thesis
      by (simp add: AddStream_def Let_def session_store_fields new_pending_session_def)
  next
    case (Some sess)
    show ?thesis
    proof (cases "conn (session_heap m sess)")
      case None
      from inv_park [OF inv _ _ Some, of "BidiParked str sess (q, sid)"] None Some
      show ?thesis by (simp add: AddStream_def Let_def session_store_fields)
    next
      case (Some c)
      with \<open>sessions m (q, sid) = Some sess\<close> inv show ?thesis
        by (simp add: AddStream_def inv_conn_store)
    qed
  qed
qed

lemma inv_AddUniStream: "manager_inv m \<Longrightarrow> manager_inv (AddUniStream m q str sid)"
proof -
  assume inv: "manager_inv m"
  show ?thesis
  proof (cases "sessions m (q, sid)")
    case None
    from inv_park_new [OF inv _ _ None, of "UniSpawned str (session_next m) (q, sid)"] None
    show ?thesis
      by (simp add: AddUniStream_def Let_def session_store_fields new_pending_session_def)
  next
    case (Some sess)
    show ?thesis
    proof (cases "conn (session_heap m sess)")
      case None
      from inv_park [OF inv _ _ Some, of "UniSpawned str sess (q, sid)"] None Some
      show ?thesis by (simp add: AddUniStream_def Let_def session_store_fields)
    next
      case (Some c)
      with \<open>sessions m (q, sid) = Some sess\<close> inv show ?thesis
        by (simp add: AddUniStream_def inv_conn_store)
    qed
  qed
qed

lemma inv_attach:
  assumes inv: "manager_inv m" and look: "sessions m key = Some sess"
  shows "manager_inv
           (session_store (session_store m sess (\<lambda>s. s\<lparr>conn := Some c\<rparr>)) sess
              (\<lambda>s. s\<lparr>created := True\<rparr>))"
  using assms unfolding manager_inv_def
  by (auto simp: session_store_fields simp del: split_paired_All)

lemma inv_insert_session:
  assumes inv: "manager_inv m" and look: "sessions m key = None"
  shows "manager_inv
           (m\<lparr>session_heap := (session_heap m)
                 (session_next m := \<lparr>created = True, counter = 0, conn = Some c\<rparr>),
              session_next := Suc (session_next m),
              sessions := (sessions m)(key \<mapsto> session_next m)\<rparr>)"
proof -
  have fresh: "\<forall>u \<in> set (tasks m). task_session u \<noteq> session_next m"
    using inv unfolding manager_inv_def by (metis less_irrefl)
  have w0: "waiting (tasks m) (session_next m) = 0"
    using fresh by (rule waiting_zero)
  have old: "\<And>k r. sessions m k = Some r \<Longrightarrow> r \<noteq> session_next m"
    using inv unfolding manager_inv_def by (metis less_irrefl)
  show ?thesis
    using inv look w0 old unfolding manager_inv_def
    by (auto simp: less_Suc_eq simp del: split_paired_All)
qed

lemma inv_AddSession:
  assumes inv: "manager_inv m" and ok: "AddSession m q sid c = Ok m'"
  shows "manager_inv m'"
proof (cases "sessions m (q, sid)")
  case None
  let ?m1 = "m\<lparr>session_heap := (session_heap m)
                 (session_next m := \<lparr>created = True, counter = 0, conn = Some c\<rparr>),
              session_next := Suc (session_next m),
              sessions := (sessions m)((q, sid) \<mapsto> session_next m)\<rparr>"
  have i1: "manager_inv ?m1" using inv None by (rule inv_insert_session)
  from ok None have "m' = ?m1 \<or> m' = ?m1\<lparr>conns := insert q (conns ?m1), pumps := pumps ?m1 @ [q]\<rparr>"
    by (auto simp: AddSession_def Let_def split: if_splits)
  then show ?thesis
  proof
    assume "m' = ?m1" with i1 show ?thesis by simp
  next
    assume e: "m' = ?m1\<lparr>conns := insert q (conns ?m1), pumps := pumps ?m1 @ [q]\<rparr>"
    have "manager_inv (?m1\<lparr>conns := insert q (conns ?m1), pumps := pumps ?m1 @ [q]\<rparr>)
            = manager_inv ?m1"
      by (rule manager_inv_core) simp_all
    with i1 e show ?thesis by simp
  qed
next
  case (Some sess)
  from ok Some have "m' = session_store (session_store m sess (\<lambda>s. s\<lparr>conn := Some c\<rparr>)) sess
              (\<lambda>s. s\<lparr>created := True\<rparr>)"
    by (auto simp: AddSession_def Let_def split: if_splits)
  with inv_attach [OF inv Some] show ?thesis by simp
qed

lemma inv_leave:
  assumes inv: "manager_inv m" and i: "i < length (tasks m)"
    and s: "task_session (tasks m ! i) = sess" and k: "task_key (tasks m ! i) = key"
    and core: "sessions m1 = sessions m" "session_heap m1 = session_heap m"
      "session_next m1 = session_next m" "tasks m1 = tasks m"
  shows "manager_inv (drop_task i (leave_session m1 sess key))"
proof -
  let ?rest = "take i (tasks m) @ drop (Suc i) (tasks m)"
  have mem: "tasks m ! i \<in> set (tasks m)" using i by simp
  have look: "sessions m key = Some sess"
    using inv mem s k unfolding manager_inv_def by blast
  have cnt: "counter (session_heap m sess) = int (waiting (tasks m) sess)"
    using inv look unfolding manager_inv_def by blast
  have w: "\<And>r. waiting (tasks m) r = waiting ?rest r + (if sess = r then 1 else 0)"
    using waiting_drop [OF i] s by simp
  have inj: "\<And>k' r. sessions m k' = Some sess \<Longrightarrow> k' = key"
    using inv look unfolding manager_inv_def by blast
  have rest_mem: "\<And>t. t \<in> set ?rest \<Longrightarrow> t \<in> set (tasks m)" by (rule set_drop_nth)
  have rest_key: "\<And>t. t \<in> set ?rest \<Longrightarrow> task_key t = key \<Longrightarrow> 0 < waiting ?rest sess"
  proof -
    fix t assume a: "t \<in> set ?rest" "task_key t = key"
    then have "sessions m key = Some (task_session t)"
      using inv rest_mem unfolding manager_inv_def by blast
    with look have "task_session t = sess" by simp
    with a(1) show "0 < waiting ?rest sess" by (rule waiting_pos)
  qed
  show ?thesis
    unfolding manager_inv_def
  proof (intro conjI allI impI ballI)
    fix k' r assume "sessions (drop_task i (leave_session m1 sess key)) k' = Some r"
    then have "sessions m k' = Some r"
      by (auto simp: drop_task_def leave_session_fields core split: if_splits)
    then have "r < session_next m" using inv unfolding manager_inv_def by blast
    then show "r < session_next (drop_task i (leave_session m1 sess key))"
      by (simp add: drop_task_def leave_session_fields core)
  next
    fix k' k'' r
    assume "sessions (drop_task i (leave_session m1 sess key)) k' = Some r"
      and "sessions (drop_task i (leave_session m1 sess key)) k'' = Some r"
    then have "sessions m k' = Some r" "sessions m k'' = Some r"
      by (auto simp: drop_task_def leave_session_fields core split: if_splits)
    then show "k' = k''" using inv unfolding manager_inv_def by blast
  next
    fix t assume "t \<in> set (tasks (drop_task i (leave_session m1 sess key)))"
    then have t: "t \<in> set ?rest"
      by (simp add: drop_task_def leave_session_fields core)
    then have old: "sessions m (task_key t) = Some (task_session t)"
      using inv rest_mem unfolding manager_inv_def by blast
    show "sessions (drop_task i (leave_session m1 sess key)) (task_key t) = Some (task_session t)"
    proof (cases "task_key t = key")
      case True
      from rest_key [OF t True] w [of sess] cnt
      have "counter (session_heap m sess) \<noteq> 1" by simp
      with old show ?thesis by (simp add: drop_task_def leave_session_fields core)
    next
      case False
      with old show ?thesis by (simp add: drop_task_def leave_session_fields core)
    qed
  next
    fix k' r assume a: "sessions (drop_task i (leave_session m1 sess key)) k' = Some r"
    then have old: "sessions m k' = Some r"
      by (auto simp: drop_task_def leave_session_fields core split: if_splits)
    then have c: "counter (session_heap m r) = int (waiting (tasks m) r)"
      using inv unfolding manager_inv_def by blast
    show "counter (session_heap (drop_task i (leave_session m1 sess key)) r)
            = int (waiting (tasks (drop_task i (leave_session m1 sess key))) r)"
    proof (cases "r = sess")
      case True
      from c w [of sess] True
      have "counter (session_heap m sess) = int (waiting ?rest sess) + 1" by simp
      with True show ?thesis by (simp add: drop_task_def leave_session_fields core)
    next
      case False
      from c w [of r] False
      have "counter (session_heap m r) = int (waiting ?rest r)" by simp
      with False show ?thesis by (simp add: drop_task_def leave_session_fields core)
    qed
  next
    fix k' r assume a: "sessions (drop_task i (leave_session m1 sess key)) k' = Some r"
    then have old: "sessions m k' = Some r"
      by (auto simp: drop_task_def leave_session_fields core split: if_splits)
    then have o5: "\<not> (counter (session_heap m r) = 0 \<and> conn (session_heap m r) = None)"
      using inv unfolding manager_inv_def by blast
    show "\<not> (counter (session_heap (drop_task i (leave_session m1 sess key)) r) = 0 \<and>
             conn (session_heap (drop_task i (leave_session m1 sess key)) r) = None)"
    proof (cases "r = sess")
      case False
      with o5 show ?thesis by (simp add: drop_task_def leave_session_fields core)
    next
      case True
      with old inj have "k' = key" by simp
      with a True show ?thesis
        by (auto simp: drop_task_def leave_session_fields core split: if_splits)
    qed
  qed
qed

lemma inv_enter:
  assumes inv: "manager_inv m" and i: "i < length (tasks m)"
    and s: "task_session t' = task_session (tasks m ! i)"
    and k: "task_key t' = task_key (tasks m ! i)"
  shows "manager_inv (m\<lparr>tasks := (tasks m)[i := t']\<rparr>)"
proof -
  have mem: "tasks m ! i \<in> set (tasks m)" using i by simp
  have new: "sessions m (task_key t') = Some (task_session t')"
    using inv mem s k unfolding manager_inv_def by simp
  have upd: "\<And>t. t \<in> set ((tasks m)[i := t']) \<Longrightarrow> t = t' \<or> t \<in> set (tasks m)"
    using set_update_subset_insert [of "tasks m" i t'] by blast
  have old: "\<And>t. t \<in> set (tasks m) \<Longrightarrow> sessions m (task_key t) = Some (task_session t)"
    using inv unfolding manager_inv_def by blast
  have t3: "\<forall>t \<in> set ((tasks m)[i := t']). sessions m (task_key t) = Some (task_session t)"
    using upd new old by blast
  have wu: "\<And>r. waiting ((tasks m)[i := t']) r = waiting (tasks m) r"
    using waiting_update [OF i s] by simp
  from inv t3 show ?thesis
    unfolding manager_inv_def by (simp add: wu)
qed


lemma handleStream_Ok:
  assumes "handleStream m str sess key w = Ok m'"
  shows "\<exists>m1. m' = leave_session m1 sess key \<and> sessions m1 = sessions m \<and>
              session_heap m1 = session_heap m \<and> session_next m1 = session_next m \<and>
              tasks m1 = tasks m"
proof (cases w)
  case SessionCtxDone
  with assms show ?thesis by (simp add: handleStream_def)
next
  case Created
  with assms obtain c where
    "m' = leave_session (conn_store m c (\<lambda>x. addStream x str)) sess key"
    by (auto simp: handleStream_def split: if_splits option.splits)
  then show ?thesis using conn_store_fields by blast
next
  case TimerFired
  with assms have "m' = leave_session
        (m\<lparr>stream_log := stream_log m @
             [(str, CancelRead WebTransportBufferedStreamRejectedErrorCode),
              (str, CancelWrite WebTransportBufferedStreamRejectedErrorCode)]\<rparr>) sess key"
    by (simp add: handleStream_def)
  moreover have "sessions (m\<lparr>stream_log := stream_log m @
             [(str, CancelRead WebTransportBufferedStreamRejectedErrorCode),
              (str, CancelWrite WebTransportBufferedStreamRejectedErrorCode)]\<rparr>) = sessions m"
    by simp
  ultimately show ?thesis
    by (intro exI [of _ "m\<lparr>stream_log := stream_log m @
             [(str, CancelRead WebTransportBufferedStreamRejectedErrorCode),
              (str, CancelWrite WebTransportBufferedStreamRejectedErrorCode)]\<rparr>"]) simp
next
  case ManagerCtxDone
  with assms have "m' = leave_session m sess key"
    by (simp add: handleStream_def split: if_splits)
  then show ?thesis by blast
qed

lemma handleUniStream_wake_Ok:
  assumes "handleUniStream_wake m str sess key watched w = Ok m'"
  shows "\<exists>m1. m' = leave_session m1 sess key \<and> sessions m1 = sessions m \<and>
              session_heap m1 = session_heap m \<and> session_next m1 = session_next m \<and>
              tasks m1 = tasks m"
proof (cases w)
  case SessionCtxDone
  with assms have "m' = leave_session m sess key"
    by (simp add: handleUniStream_wake_def split: if_splits)
  then show ?thesis by blast
next
  case Created
  with assms obtain c where
    "m' = leave_session (conn_store m c (\<lambda>x. addUniStream x str)) sess key"
    by (auto simp: handleUniStream_wake_def split: if_splits option.splits)
  then show ?thesis using conn_store_fields by blast
next
  case TimerFired
  with assms have "m' = leave_session
        (m\<lparr>stream_log := stream_log m @
             [(str, CancelRead WebTransportBufferedStreamRejectedErrorCode)]\<rparr>) sess key"
    by (simp add: handleUniStream_wake_def)
  then show ?thesis
    by (intro exI [of _ "m\<lparr>stream_log := stream_log m @
             [(str, CancelRead WebTransportBufferedStreamRejectedErrorCode)]\<rparr>"]) simp
next
  case ManagerCtxDone
  with assms have "m' = leave_session m sess key"
    by (simp add: handleUniStream_wake_def split: if_splits)
  then show ?thesis by blast
qed

text \<open>What a step of a parked goroutine that completes can be.\<close>

lemma task_step_Ok:
  assumes "task_step m i w = Ok m'"
  obtains (leave) m1 where "i < length (tasks m)" "m' = drop_task i (leave_session m1
        (task_session (tasks m ! i)) (task_key (tasks m ! i)))"
      "sessions m1 = sessions m" "session_heap m1 = session_heap m"
      "session_next m1 = session_next m" "tasks m1 = tasks m"
  | (enter) t' where "i < length (tasks m)" "m' = m\<lparr>tasks := (tasks m)[i := t']\<rparr>"
      "task_session t' = task_session (tasks m ! i)" "task_key t' = task_key (tasks m ! i)"
proof -
  from assms have i: "i < length (tasks m)"
    by (simp add: task_step_def split: if_splits)
  show ?thesis
  proof (cases "tasks m ! i")
    case (BidiParked str sess key)
    with assms i obtain m0 where h: "handleStream m str sess key w = Ok m0" and
      m': "m' = drop_task i m0"
      by (auto simp: task_step_def split: res.splits)
    from handleStream_Ok [OF h] m' BidiParked i leave show ?thesis by auto
  next
    case (UniSpawned str sess key)
    with assms i obtain watched where
      "m' = m\<lparr>tasks := (tasks m)[i := UniParked str sess key watched]\<rparr>"
      by (auto simp: task_step_def split: res.splits)
    with UniSpawned i enter [of "UniParked str sess key watched"] show ?thesis by simp
  next
    case (UniParked str sess key watched)
    with assms i obtain m0 where h: "handleUniStream_wake m str sess key watched w = Ok m0" and
      m': "m' = drop_task i m0"
      by (auto simp: task_step_def split: res.splits)
    from handleUniStream_wake_Ok [OF h] m' UniParked i leave show ?thesis by auto
  qed
qed

lemma inv_task_step:
  assumes inv: "manager_inv m" and ok: "task_step m i w = Ok m'"
  shows "manager_inv m'"
  using ok
proof (cases rule: task_step_Ok)
  case (leave m1)
  from inv_leave [OF inv leave(1) refl refl leave(3-6)] leave(2) show ?thesis by simp
next
  case (enter t')
  from inv_enter [OF inv enter(1,3,4)] enter(2) show ?thesis by simp
qed

lemma inv_exec:
  assumes inv: "manager_inv m" and ok: "exec x m = Ok m'"
  shows "manager_inv m'"
proof (cases x)
  case (AddStreamCall q str sid)
  with ok inv_AddStream [OF inv, of q str sid] show ?thesis by simp
next
  case (AddUniStreamCall q str sid)
  with ok inv_AddUniStream [OF inv, of q str sid] show ?thesis by simp
next
  case (AddSessionCall q sid c)
  with ok have "AddSession m q sid c = Ok m'" by simp
  with inv show ?thesis by (rule inv_AddSession)
next
  case (TaskStep i w)
  with ok have "task_step m i w = Ok m'" by simp
  with inv show ?thesis by (rule inv_task_step)
next
  case ManagerClose
  with ok have "m' = m\<lparr>mctx_done := True\<rparr>" by (simp add: sessionManager_Close_def)
  moreover have "manager_inv (m\<lparr>mctx_done := True\<rparr>) = manager_inv m"
    by (rule manager_inv_core) simp_all
  ultimately show ?thesis using inv by simp
next
  case (ConnClose c)
  with ok inv show ?thesis by (auto simp: inv_conn_store)
qed

lemma inv_run:
  assumes "manager_inv m" and "run ops m = Ok m'"
  shows "manager_inv m'"
  using assms
proof (induction ops arbitrary: m)
  case Nil
  then show ?case by simp
next
  case (Cons x xs)
  show ?case
  proof (cases "exec x m")
    case (Ok m1)
    with Cons.prems(1) have "manager_inv m1" by (rule inv_exec)
    moreover from Cons.prems(2) Ok have "run xs m1 = Ok m'" by simp
    ultimately show ?thesis by (rule Cons.IH)
  next
    case Blocked
    with Cons.prems(2) have "run xs m = Ok m'" by simp
    with Cons.prems(1) show ?thesis by (rule Cons.IH)
  next
    case (Fail e)
    with Cons.prems(2) show ?thesis by simp
  next
    case (Panic f)
    with Cons.prems(2) show ?thesis by simp
  qed
qed

lemma AddStream_keeps_entries:
  "sessions m k = Some r \<Longrightarrow> sessions (AddStream m q str sid) k = Some r"
  by (auto simp: AddStream_def Let_def new_pending_session_def session_store_fields
        conn_store_fields split: option.splits)

lemma AddUniStream_keeps_entries:
  "sessions m k = Some r \<Longrightarrow> sessions (AddUniStream m q str sid) k = Some r"
  by (auto simp: AddUniStream_def Let_def new_pending_session_def session_store_fields
        conn_store_fields split: option.splits)

lemma AddSession_keeps_entries:
  "sessions m k = Some r \<Longrightarrow> AddSession m q sid c = Ok m' \<Longrightarrow> sessions m' k = Some r"
  by (auto simp: AddSession_def Let_def session_store_fields split: option.splits if_splits)

lemma removal_only_by_leaving:
  assumes inv: "manager_inv m" and ok: "exec x m = Ok m'"
    and before: "sessions m k = Some r" and after: "sessions m' k = None"
  shows "(\<exists>i w. x = TaskStep i w) \<and>
         counter (session_heap m r) = 1 \<and>
         counter (session_heap m' r) = 0 \<and> conn (session_heap m' r) = None"
proof (cases x)
  case (AddStreamCall q str sid)
  with ok before after AddStream_keeps_entries [OF before, of q str sid] show ?thesis by simp
next
  case (AddUniStreamCall q str sid)
  with ok before after AddUniStream_keeps_entries [OF before, of q str sid] show ?thesis by simp
next
  case (AddSessionCall q sid c)
  with ok have "AddSession m q sid c = Ok m'" by simp
  from AddSession_keeps_entries [OF before this] after show ?thesis by simp
next
  case ManagerClose
  with ok before after show ?thesis by (auto simp: sessionManager_Close_def)
next
  case (ConnClose c)
  with ok before after show ?thesis by (auto simp: conn_store_fields)
next
  case (TaskStep i w)
  with ok have ts: "task_step m i w = Ok m'" by simp
  from ts show ?thesis
  proof (cases rule: task_step_Ok)
    case (enter t')
    with before after show ?thesis by simp
  next
    case (leave m1)
    let ?sess = "task_session (tasks m ! i)" and ?key = "task_key (tasks m ! i)"
    have mem: "tasks m ! i \<in> set (tasks m)" using leave(1) by simp
    have look: "sessions m ?key = Some ?sess"
      using inv mem unfolding manager_inv_def by blast
    from before after leave have del: "k = ?key \<and> counter (session_heap m ?sess) = 1 \<and>
        conn (session_heap m ?sess) = None"
      by (auto simp: drop_task_def leave_session_fields split: if_splits)
    with look before have "r = ?sess" by simp
    with del leave TaskStep show ?thesis
      by (simp add: drop_task_def leave_session_fields)
  qed
qed

text \<open>
  Claim C4. After any run of complete operations from the empty manager, no entry of
  the map has a counter of zero and no session attached; and an operation that
  removes an entry is the step of a parked goroutine that was the last one waiting
  for the entry's session, to which no session is attached.
\<close>

theorem manager_map_invariant:
  assumes "run ops (newSessionManager t heap) = Ok m"
  shows "(\<forall>k r. sessions m k = Some r \<longrightarrow>
            \<not> (counter (session_heap m r) = 0 \<and> conn (session_heap m r) = None))
       \<and> (\<forall>x m' k r. exec x m = Ok m' \<longrightarrow> sessions m k = Some r \<longrightarrow> sessions m' k = None \<longrightarrow>
            (\<exists>i w. x = TaskStep i w) \<and> counter (session_heap m r) = 1 \<and>
            counter (session_heap m' r) = 0 \<and> conn (session_heap m' r) = None)"
proof -
  have inv: "manager_inv m"
    using inv_empty assms by (rule inv_run)
  then have "\<forall>k r. sessions m k = Some r \<longrightarrow>
            \<not> (counter (session_heap m r) = 0 \<and> conn (session_heap m r) = None)"
    unfolding manager_inv_def by blast
  moreover have "\<forall>x m' k r. exec x m = Ok m' \<longrightarrow> sessions m k = Some r \<longrightarrow> sessions m' k = None \<longrightarrow>
            (\<exists>i w. x = TaskStep i w) \<and> counter (session_heap m r) = 1 \<and>
            counter (session_heap m' r) = 0 \<and> conn (session_heap m' r) = None"
    using removal_only_by_leaving [OF inv] by blast
  ultimately show ?thesis by blast
qed

lemma timer_after_AddStream:
  "exec (TaskStep 0 TimerFired) (AddStream (newSessionManager t heap) q str sid) =
     Ok \<lparr>mctx_done = False, timeout = t, sessions = Map.empty, conns = {},
        session_heap = (\<lambda>a. \<lparr>created = False, counter = 0, conn = None\<rparr>),
        session_next = Suc 0, conn_heap = heap, tasks = [], pumps = [],
        stream_log = [(str, CancelRead 0x3994bd84), (str, CancelWrite 0x3994bd84)]\<rparr>"
  by (simp add: AddStream_fresh task_step_def handleStream_def leave_session_def
        session_store_def drop_task_def Let_def WebTransportBufferedStreamRejectedErrorCode_def
        fun_upd_idem)

theorem manager_map_invariant_witness:
  "run [AddStreamCall 1 7 99] (newSessionManager 5 (\<lambda>a. newConn False 0 0))
     = Ok (AddStream (newSessionManager 5 (\<lambda>a. newConn False 0 0)) 1 7 99)
   \<and> sessions (AddStream (newSessionManager 5 (\<lambda>a. newConn False 0 0)) 1 7 99) (1, 99) = Some 0
   \<and> \<not> (counter (session_heap (AddStream (newSessionManager 5 (\<lambda>a. newConn False 0 0)) 1 7 99) 0) = 0
        \<and> conn (session_heap (AddStream (newSessionManager 5 (\<lambda>a. newConn False 0 0)) 1 7 99) 0) = None)
   \<and> (case exec (TaskStep 0 TimerFired)
               (AddStream (newSessionManager 5 (\<lambda>a. newConn False 0 0)) 1 7 99) of
        Ok m' \<Rightarrow> sessions m' (1, 99) = None \<and> counter (session_heap m' 0) = 0
                 \<and> conn (session_heap m' 0) = None
      | _ \<Rightarrow> False)"
proof -
  let ?M = "AddStream (newSessionManager 5 (\<lambda>a. newConn False 0 0)) 1 7 99"
  let ?M' = "\<lparr>mctx_done = False, timeout = 5, sessions = Map.empty, conns = {},
        session_heap = (\<lambda>a. \<lparr>created = False, counter = 0, conn = None\<rparr>),
        session_next = Suc 0, conn_heap = (\<lambda>a. newConn False 0 0), tasks = [], pumps = [],
        stream_log = [(7, CancelRead 0x3994bd84), (7, CancelWrite 0x3994bd84)]\<rparr>"
  have r: "run [AddStreamCall 1 7 99] (newSessionManager 5 (\<lambda>a. newConn False 0 0)) = Ok ?M"
    by simp
  note th = manager_map_invariant [OF r]
  have e: "exec (TaskStep 0 TimerFired) ?M = Ok ?M'"
    by (rule timer_after_AddStream)
  have s: "sessions ?M (1, 99) = Some 0" by (simp add: AddStream_fresh)
  from th s have a: "\<not> (counter (session_heap ?M 0) = 0 \<and> conn (session_heap ?M 0) = None)"
    by blast
  have c: "sessions ?M' (1, 99) = None" by simp
  from th e s c have b: "counter (session_heap ?M' 0) = 0 \<and> conn (session_heap ?M' 0) = None"
    by blast
  from r s a b c show ?thesis unfolding e by simp
qed

end
